theory Spec2Isabelle
  imports Main "HOL-Library.Word" "HOL-Library.Sublist"
begin

unbundle bit_operations_syntax

section \<open>Data model\<close>

text \<open>
  The development embeds \<^verbatim>\<open>core/state/cached_reader.go\<close>: the read-through facade
  \<^verbatim>\<open>CachedReader\<close> over a \<^verbatim>\<open>shards.StateCache\<close> and an underlying
  \<^verbatim>\<open>StateReader\<close>. Byte slices are lists of 8-bit words; an address, a hash and a
  nibble path are all byte slices, as in the Go code (\<^verbatim>\<open>address.Bytes()\<close>,
  \<^verbatim>\<open>hashed[:]\<close>, \<^verbatim>\<open>hashedNibbles[:]\<close>).
\<close>

type_synonym byte = "8 word"
type_synonym bytes = "byte list"

text \<open>
  Errors of the read path. \<open>StoreError\<close> and \<open>DecodeError\<close> are the two kinds an
  underlying reader or a decoder reports; \<open>Panic\<close> stands for a Go run-time panic
  (an index out of range in the nibble codec, a failed assertion of the cache).
\<close>

datatype error = StoreError | DecodeError | Panic

text \<open>
  \<^verbatim>\<open>accounts.Account\<close>. A \<^verbatim>\<open>*accounts.Account\<close> is an \<open>Account option\<close>:
  \<open>None\<close> is the nil pointer, which the reader returns for an account that does not exist.
\<close>

record Account =
  Nonce :: "64 word"
  Balance :: "256 word"
  CodeHash :: bytes
  Root :: bytes
  Incarnation :: "64 word"

text \<open>The two buckets of the key-value store that \<^verbatim>\<open>ReadAccountData\<close> walks.\<close>

datatype bucket = TrieOfAccountsBucket | HashedAccountsBucket

text \<open>
  One access to the backing store: a range scan \<^verbatim>\<open>db.Walk(bucket, startkey, fixedbits, _)\<close>
  or one call of a method of the underlying \<^verbatim>\<open>StateReader\<close>. Every operation of the
  cached reader returns the list of accesses it made, in order.
\<close>

datatype access =
    DbWalk bucket bytes nat
  | RdAccountData bytes
  | RdAccountStorage bytes "64 word" bytes
  | RdAccountCode bytes "64 word" bytes
  | RdAccountIncarnation bytes

text \<open>
  The collaborators of the cached reader that live outside \<^verbatim>\<open>cached_reader.go\<close>, taken
  as parameters:
  \<^item> \<open>Hash\<close>: the pooled hasher (\<^verbatim>\<open>h.Sha.Write(addrBytes); h.Sha.Read(hashed[:])\<close>);
  \<^item> \<open>DecodeForStorage\<close>: \<^verbatim>\<open>acc.DecodeForStorage(v)\<close>, the decoded account or an error;
  \<^item> \<open>UnmarshalTrieNodeTyped\<close>: \<^verbatim>\<open>trie.UnmarshalTrieNodeTyped(v)\<close>;
  \<^item> \<open>BytesToHash\<close>: \<^verbatim>\<open>common.BytesToHash\<close>, which makes a hash of a key of the store;
  \<^item> \<open>emptyCodeHash\<close>: the package variable of that name;
  \<^item> \<open>Cursor\<close>: what the cursor of \<^verbatim>\<open>cr.r.(*PlainStateReader).db\<close> yields for
    \<^verbatim>\<open>Walk(bucket, startkey, fixedbits, _)\<close>: the entries of the range in key order and,
    when the store fails after them, the error;
  \<^item> \<open>rdAccountData\<close>, \<open>rdAccountStorage\<close>, \<open>rdAccountCode\<close>, \<open>rdAccountIncarnation\<close>:
    the methods of the underlying reader \<^verbatim>\<open>cr.r\<close>.
  The model covers a \<^verbatim>\<open>CachedReader\<close> whose \<^verbatim>\<open>r\<close> is a \<^verbatim>\<open>*PlainStateReader\<close>, as the
  type assertion in \<^verbatim>\<open>ReadAccountData\<close> requires, and whose \<^verbatim>\<open>cache\<close> is not nil.
\<close>

record Env =
  Hash :: "bytes \<Rightarrow> bytes"
  DecodeForStorage :: "bytes \<Rightarrow> error + Account"
  UnmarshalTrieNodeTyped :: "bytes \<Rightarrow> bool \<times> bool \<times> bool \<times> bytes"
  BytesToHash :: "bytes \<Rightarrow> bytes"
  emptyCodeHash :: bytes
  Cursor :: "bucket \<Rightarrow> bytes \<Rightarrow> nat \<Rightarrow> (bytes \<times> bytes) list \<times> error option"
  rdAccountData :: "bytes \<Rightarrow> error + Account option"
  rdAccountStorage :: "bytes \<Rightarrow> 64 word \<Rightarrow> bytes \<Rightarrow> error + bytes"
  rdAccountCode :: "bytes \<Rightarrow> 64 word \<Rightarrow> bytes \<Rightarrow> error + bytes"
  rdAccountIncarnation :: "bytes \<Rightarrow> error + 64 word"

section \<open>The state cache\<close>

text \<open>
  Modelled from the spec: \<^verbatim>\<open>shards.StateCache\<close> (package \<^verbatim>\<open>turbo/shards\<close>) is not among
  the sources; only its calls in \<^verbatim>\<open>cached_reader.go\<close> are. The record and the operations
  below follow sections 3, 4.1 and 4.2 of the specification: a trie prefix index from
  nibble-path prefix to descriptor, and the entity maps with their tri-state answers.
  In the account map \<open>None\<close> is unknown, \<open>Some None\<close> is the Absent marker and
  \<open>Some (Some a)\<close> is Present; the map is keyed by hashed address.
\<close>

record TrieNodeDescriptor =
  hasState :: bool
  hasTree :: bool
  hasHash :: bool
  loaded :: bool

record StateCache =
  accounts :: "bytes \<rightharpoonup> Account option"
  accountTrie :: "bytes \<rightharpoonup> TrieNodeDescriptor"
  storage :: "bytes \<times> 64 word \<times> bytes \<rightharpoonup> bytes option"
  code :: "bytes \<times> 64 word \<rightharpoonup> bytes"
  deleted :: "bytes \<rightharpoonup> Account"

text \<open>Modelled from the spec: \<^verbatim>\<open>GetAccountByHashedAddress\<close>, the tri-state lookup by hash.\<close>

definition GetAccountByHashedAddress :: "StateCache \<Rightarrow> bytes \<Rightarrow> Account option option" where
  "GetAccountByHashedAddress c h = accounts c h"

text \<open>Modelled from the spec: \<^verbatim>\<open>GetAccount\<close>, the lookup by address, which hashes the address.\<close>

definition GetAccount :: "(bytes \<Rightarrow> bytes) \<Rightarrow> StateCache \<Rightarrow> bytes \<Rightarrow> Account option option" where
  "GetAccount H c address = GetAccountByHashedAddress c (H address)"

text \<open>Modelled from the spec: \<^verbatim>\<open>DeprecatedSetAccountRead\<close>, which caches an account by its hash.\<close>

definition DeprecatedSetAccountRead :: "StateCache \<Rightarrow> bytes \<Rightarrow> Account \<Rightarrow> StateCache" where
  "DeprecatedSetAccountRead c h a = c\<lparr>accounts := (accounts c)(h \<mapsto> Some a)\<rparr>"

text \<open>
  Modelled from the spec: \<^verbatim>\<open>SetAccountRead\<close>, which caches an account read for an address
  under the hash of the address.
\<close>

definition SetAccountRead :: "(bytes \<Rightarrow> bytes) \<Rightarrow> StateCache \<Rightarrow> bytes \<Rightarrow> Account \<Rightarrow> StateCache" where
  "SetAccountRead H c address a = DeprecatedSetAccountRead c (H address) a"

text \<open>Modelled from the spec: \<^verbatim>\<open>SetAccountAbsent\<close>, which writes the Absent marker.\<close>

definition SetAccountAbsent :: "(bytes \<Rightarrow> bytes) \<Rightarrow> StateCache \<Rightarrow> bytes \<Rightarrow> StateCache" where
  "SetAccountAbsent H c address = c\<lparr>accounts := (accounts c)(H address \<mapsto> None)\<rparr>"

text \<open>
  Modelled from the spec: \<^verbatim>\<open>SetAccountTrieRead\<close> is the operation \<open>Insert\<close> of section 4.1:
  it inserts or overwrites the descriptor at the prefix; a fresh descriptor is not loaded.
  The fifth argument (the node's hashes) is not part of the descriptor.
\<close>

definition SetAccountTrieRead ::
  "StateCache \<Rightarrow> bytes \<Rightarrow> bool \<Rightarrow> bool \<Rightarrow> bool \<Rightarrow> bytes \<Rightarrow> StateCache" where
  "SetAccountTrieRead c k hs ht hh newV =
     c\<lparr>accountTrie := (accountTrie c)(k \<mapsto>
          \<lparr>hasState = hs, hasTree = ht, hasHash = hh, loaded = False\<rparr>)\<rparr>"

text \<open>
  Modelled from the spec: \<^verbatim>\<open>MarkAccountTrieAsLoaded\<close> is \<open>MarkLoaded\<close> of section 4.1. It
  asserts that the descriptor exists; \<open>None\<close> is the failed assertion.
\<close>

definition MarkAccountTrieAsLoaded :: "StateCache \<Rightarrow> bytes \<Rightarrow> StateCache option" where
  "MarkAccountTrieAsLoaded c k =
     (case accountTrie c k of
        None \<Rightarrow> None
      | Some d \<Rightarrow> Some (c\<lparr>accountTrie := (accountTrie c)(k \<mapsto> d\<lparr>loaded := True\<rparr>)\<rparr>))"

text \<open>
  Modelled from the spec: the search of the index behind \<open>FindDeepestPrefix\<close>, the first
  stored prefix in a list of candidates, with its descriptor.
\<close>

fun firstStored ::
  "(bytes \<rightharpoonup> TrieNodeDescriptor) \<Rightarrow> bytes list \<Rightarrow> (bytes \<times> TrieNodeDescriptor) option" where
  "firstStored t [] = None"
| "firstStored t (K # Ks) = (case t K of Some d \<Rightarrow> Some (K, d) | None \<Rightarrow> firstStored t Ks)"

text \<open>
  Modelled from the spec: \<^verbatim>\<open>FindDeepestAccountTrie\<close> is \<open>FindDeepestPrefix\<close> of section 4.1:
  the longest stored prefix \<open>K\<close> of the path with its \<open>hasState\<close> and \<open>loaded\<close> flags and
  \<open>trieMiss = False\<close>, or, when no prefix of the path is stored, no prefix (the nil slice,
  \<open>None\<close>) and \<open>trieMiss = True\<close>. The candidates are the prefixes of the path, longest first.
\<close>

definition FindDeepestAccountTrie ::
  "StateCache \<Rightarrow> bytes \<Rightarrow> bytes option \<times> bool \<times> bool \<times> bool" where
  "FindDeepestAccountTrie c P =
     (case firstStored (accountTrie c) (rev (prefixes P)) of
        None \<Rightarrow> (None, False, False, True)
      | Some (K, d) \<Rightarrow> (Some K, hasState d, loaded d, False))"

text \<open>
  Modelled from the spec: \<^verbatim>\<open>GetStorage\<close>, the tri-state lookup in the storage map, which
  is keyed by (address, incarnation, key); \<open>Some None\<close> is the Absent marker.
\<close>

definition GetStorage :: "StateCache \<Rightarrow> bytes \<Rightarrow> 64 word \<Rightarrow> bytes \<Rightarrow> bytes option option" where
  "GetStorage c address incarnation key = storage c (address, incarnation, key)"

text \<open>Modelled from the spec: \<^verbatim>\<open>SetStorageRead\<close>, which caches a value under its incarnation.\<close>

definition SetStorageRead :: "StateCache \<Rightarrow> bytes \<Rightarrow> 64 word \<Rightarrow> bytes \<Rightarrow> bytes \<Rightarrow> StateCache" where
  "SetStorageRead c address incarnation key v =
     c\<lparr>storage := (storage c)((address, incarnation, key) \<mapsto> Some v)\<rparr>"

text \<open>Modelled from the spec: \<^verbatim>\<open>SetStorageAbsent\<close>, which writes the Absent marker.\<close>

definition SetStorageAbsent :: "StateCache \<Rightarrow> bytes \<Rightarrow> 64 word \<Rightarrow> bytes \<Rightarrow> StateCache" where
  "SetStorageAbsent c address incarnation key =
     c\<lparr>storage := (storage c)((address, incarnation, key) \<mapsto> None)\<rparr>"

text \<open>Modelled from the spec: \<^verbatim>\<open>GetCode\<close>, the lookup in the code map, keyed by (address, incarnation).\<close>

definition GetCode :: "StateCache \<Rightarrow> bytes \<Rightarrow> 64 word \<Rightarrow> bytes option" where
  "GetCode c address incarnation = code c (address, incarnation)"

text \<open>
  Modelled from the spec: \<^verbatim>\<open>SetCodeRead\<close>, a no-op when the code is longer than 1024
  bytes.
\<close>

definition SetCodeRead :: "StateCache \<Rightarrow> bytes \<Rightarrow> 64 word \<Rightarrow> bytes \<Rightarrow> StateCache" where
  "SetCodeRead c address incarnation cd =
     (if length cd > 1024 then c
      else c\<lparr>code := (code c)((address, incarnation) \<mapsto> cd)\<rparr>)"

text \<open>Modelled from the spec: the deleted-account markers, keyed by address.\<close>

definition GetDeletedAccount :: "StateCache \<Rightarrow> bytes \<Rightarrow> Account option" where
  "GetDeletedAccount c address = deleted c address"

section \<open>The nibble codec\<close>

text \<open>
  Modelled from the spec: \<^verbatim>\<open>hexutil.DecompressNibbles\<close>, the nibble codec of sections 2 and
  3: every byte gives its high and its low 4-bit segment.
\<close>

definition DecompressNibbles :: "bytes \<Rightarrow> bytes" where
  "DecompressNibbles inp = concat (map (\<lambda>b. [drop_bit 4 b AND 0x0F, b AND 0x0F]) inp)"

text \<open>
  Modelled from the spec: \<^verbatim>\<open>hexutil.CompressNibbles\<close>, the other direction of the codec:
  two nibbles give the byte \<^verbatim>\<open>nibbles[i]<<4 | nibbles[i+1]\<close>. An odd number of nibbles has
  no byte form (the read of \<^verbatim>\<open>nibbles[i+1]\<close> is out of range): \<open>None\<close>.
\<close>

fun CompressNibbles :: "bytes \<Rightarrow> bytes option" where
  "CompressNibbles [] = Some []"
| "CompressNibbles [a] = None"
| "CompressNibbles (a # b # rest) =
     (case CompressNibbles rest of
        None \<Rightarrow> None
      | Some out \<Rightarrow> Some ((push_bit 4 a OR b) # out))"

section \<open>The cached reader\<close>

text \<open>
  \<^verbatim>\<open>ReadAccountStorage\<close>: a hit of the storage cache returns; otherwise one call of the
  underlying reader, cached as Absent when the value is empty and as read otherwise.
  A cached Absent marker is returned as the nil slice, the empty list.
\<close>

definition ReadAccountStorage ::
  "Env \<Rightarrow> StateCache \<Rightarrow> bytes \<Rightarrow> 64 word \<Rightarrow> bytes \<Rightarrow> (error + bytes) \<times> StateCache \<times> access list" where
  "ReadAccountStorage env c address incarnation key =
     (case GetStorage c address incarnation key of
        Some s \<Rightarrow> (Inr (case s of None \<Rightarrow> [] | Some v \<Rightarrow> v), c, [])
      | None \<Rightarrow>
          (case rdAccountStorage env address incarnation key of
             Inl err \<Rightarrow> (Inl err, c, [RdAccountStorage address incarnation key])
           | Inr v \<Rightarrow>
               (Inr v,
                (if length v = 0 then SetStorageAbsent c address incarnation key
                 else SetStorageRead c address incarnation key v),
                [RdAccountStorage address incarnation key])))"

text \<open>
  \<^verbatim>\<open>ReadAccountCode\<close>: nothing is read for the hash of the empty code; a hit of the code
  cache returns; otherwise one call of the underlying reader, whose result is cached when it
  has at most 1024 bytes. The nil slice is the empty list.
\<close>

definition ReadAccountCode ::
  "Env \<Rightarrow> StateCache \<Rightarrow> bytes \<Rightarrow> 64 word \<Rightarrow> bytes \<Rightarrow> (error + bytes) \<times> StateCache \<times> access list" where
  "ReadAccountCode env c address incarnation codeHash =
     (if codeHash = emptyCodeHash env then (Inr [], c, [])
      else
        (case GetCode c address incarnation of
           Some cd \<Rightarrow> (Inr cd, c, [])
         | None \<Rightarrow>
             (case rdAccountCode env address incarnation codeHash of
                Inl err \<Rightarrow> (Inl err, c, [RdAccountCode address incarnation codeHash])
              | Inr cd \<Rightarrow>
                  (Inr cd,
                   (if length cd \<le> 1024 then SetCodeRead c address incarnation cd else c),
                   [RdAccountCode address incarnation codeHash]))))"

text \<open>\<^verbatim>\<open>ReadAccountCodeSize\<close>: the length of what \<^verbatim>\<open>ReadAccountCode\<close> returns, with its error.\<close>

definition ReadAccountCodeSize ::
  "Env \<Rightarrow> StateCache \<Rightarrow> bytes \<Rightarrow> 64 word \<Rightarrow> bytes \<Rightarrow> (error + nat) \<times> StateCache \<times> access list" where
  "ReadAccountCodeSize env c address incarnation codeHash =
     (case ReadAccountCode env c address incarnation codeHash of
        (Inl err, c', lg) \<Rightarrow> (Inl err, c', lg)
      | (Inr cd, c', lg) \<Rightarrow> (Inr (length cd), c', lg))"

text \<open>
  \<^verbatim>\<open>ReadAccountIncarnation\<close>: the incarnation of a deleted-account marker when there is
  one, and the answer of the underlying reader otherwise.
\<close>

definition ReadAccountIncarnation ::
  "Env \<Rightarrow> StateCache \<Rightarrow> bytes \<Rightarrow> (error + 64 word) \<times> StateCache \<times> access list" where
  "ReadAccountIncarnation env c address =
     (case GetDeletedAccount c address of
        Some d \<Rightarrow> (Inr (Incarnation d), c, [])
      | None \<Rightarrow> (rdAccountIncarnation env address, c, [RdAccountIncarnation address]))"

subsection \<open>Range scans\<close>

text \<open>
  Modelled from the spec: \<^verbatim>\<open>db.Walk\<close> (section 6). The callback is invoked on every entry
  the cursor yields; the scan stops with the callback's error, stops without error when
  the callback returns \<open>continue = False\<close>, and otherwise ends with the cursor's own
  error, if any, after the last entry. The state \<open>s\<close> is what the callback's closure
  captures and mutates.
\<close>

fun walkEntries ::
  "('s \<Rightarrow> bytes \<Rightarrow> bytes \<Rightarrow> (bool \<times> error option) \<times> 's) \<Rightarrow>
   (bytes \<times> bytes) list \<Rightarrow> error option \<Rightarrow> 's \<Rightarrow> error option \<times> 's" where
  "walkEntries visit [] cerr s = (cerr, s)"
| "walkEntries visit ((k, v) # es) cerr s =
     (case visit s k v of
        ((goOn, Some err), s') \<Rightarrow> (Some err, s')
      | ((goOn, None), s') \<Rightarrow> (if goOn then walkEntries visit es cerr s' else (None, s')))"

text \<open>
  Modelled from the spec: \<^verbatim>\<open>db.Walk(bucket, startkey, fixedbits, walker)\<close> runs the
  callback over what the cursor yields for the range.
\<close>

definition dbWalk ::
  "Env \<Rightarrow> bucket \<Rightarrow> bytes \<Rightarrow> nat \<Rightarrow> ('s \<Rightarrow> bytes \<Rightarrow> bytes \<Rightarrow> (bool \<times> error option) \<times> 's) \<Rightarrow>
   's \<Rightarrow> error option \<times> 's" where
  "dbWalk env b startkey fixedbits visit s =
     (case Cursor env b startkey fixedbits of (es, cerr) \<Rightarrow> walkEntries visit es cerr s)"

subsection \<open>ReadAccountData\<close>

text \<open>The constant \<^verbatim>\<open>ReadStateByPrefixes\<close> of the source.\<close>

definition ReadStateByPrefixes :: bool where
  "ReadStateByPrefixes = True"

text \<open>A Go slice that may be nil, read as a slice: nil has length 0.\<close>

definition sliceOf :: "bytes option \<Rightarrow> bytes" where
  "sliceOf k = (case k of None \<Rightarrow> [] | Some K \<Rightarrow> K)"

text \<open>
  The point lookup through the underlying reader (source lines 36-45 and again 70-79):
  an error is returned and nothing is cached; otherwise the result is cached as Absent
  or as read, and returned.
\<close>

definition readDirect ::
  "Env \<Rightarrow> StateCache \<Rightarrow> bytes \<Rightarrow> (error + Account option) \<times> StateCache \<times> access list" where
  "readDirect env c address =
     (case rdAccountData env address of
        Inl err \<Rightarrow> (Inl err, c, [RdAccountData address])
      | Inr a \<Rightarrow>
          (Inr a,
           (case a of
              None \<Rightarrow> SetAccountAbsent (Hash env) c address
            | Some acc \<Rightarrow> SetAccountRead (Hash env) c address acc),
           [RdAccountData address]))"

text \<open>
  The callback of the walk over the trie bucket (source lines 58-62): the node is decoded
  and inserted under its key; the callback always continues and never fails.
\<close>

definition trieVisit ::
  "Env \<Rightarrow> StateCache \<Rightarrow> bytes \<Rightarrow> bytes \<Rightarrow> (bool \<times> error option) \<times> StateCache" where
  "trieVisit env c k v =
     (case UnmarshalTrieNodeTyped env v of
        (hs, ht, hh, newV) \<Rightarrow> ((True, None), SetAccountTrieRead c k hs ht hh newV))"

text \<open>
  The deepest-prefix search with its one reload (source lines 56-67). On a miss the trie
  bucket is walked once, from the key \<^verbatim>\<open>ihK\<close> that the failed search returned, with
  \<^verbatim>\<open>len(ihK)*8\<close> fixed bits, and the search is run once more. The result is the error of
  the walk, or the triple \<^verbatim>\<open>(ihK, hasState, alreadyLoaded)\<close> that the rest of the function
  reads.
\<close>

definition findTrie ::
  "Env \<Rightarrow> StateCache \<Rightarrow> bytes \<Rightarrow>
   (error + bytes option \<times> bool \<times> bool) \<times> StateCache \<times> access list" where
  "findTrie env c hashedNibbles =
     (case FindDeepestAccountTrie c hashedNibbles of
        (ihK, hs, ld, trieMiss) \<Rightarrow>
          if trieMiss then
            (case dbWalk env TrieOfAccountsBucket (sliceOf ihK) (length (sliceOf ihK) * 8)
                    (trieVisit env) c of
               (Some err, c1) \<Rightarrow>
                 (Inl err, c1, [DbWalk TrieOfAccountsBucket (sliceOf ihK) (length (sliceOf ihK) * 8)])
             | (None, c1) \<Rightarrow>
                 (case FindDeepestAccountTrie c1 hashedNibbles of
                    (ihK', hs', ld', trieMiss') \<Rightarrow>
                      (Inr (ihK', hs', ld'), c1,
                       [DbWalk TrieOfAccountsBucket (sliceOf ihK) (length (sliceOf ihK) * 8)])))
          else (Inr (ihK, hs, ld), c, []))"

text \<open>
  The callback of the walk over the hashed-account bucket (source lines 93-111). Its
  closure captures the cache and the variables \<^verbatim>\<open>found\<close> and \<^verbatim>\<open>a\<close>. An entry whose
  hash is cached already is not decoded; otherwise the account is decoded, a decoding
  error stops the walk, and the account is cached by its hash. In both cases the entry
  with the key \<^verbatim>\<open>hashed\<close> sets \<^verbatim>\<open>found\<close> and \<^verbatim>\<open>a\<close>.
\<close>

definition accountVisit ::
  "Env \<Rightarrow> bytes \<Rightarrow> StateCache \<times> bool \<times> Account option \<Rightarrow> bytes \<Rightarrow> bytes \<Rightarrow>
   (bool \<times> error option) \<times> (StateCache \<times> bool \<times> Account option)" where
  "accountVisit env hashed s k v =
     (case s of (c, found, a) \<Rightarrow>
        (case GetAccountByHashedAddress c (BytesToHash env k) of
           Some acc \<Rightarrow>
             (if k = hashed then ((True, None), (c, True, acc))
              else ((True, None), (c, found, a)))
         | None \<Rightarrow>
             (case DecodeForStorage env v of
                Inl err \<Rightarrow> ((False, Some err), (c, found, a))
              | Inr acc \<Rightarrow>
                  (if k = hashed
                   then ((True, None), (DeprecatedSetAccountRead c (BytesToHash env k) acc, True, Some acc))
                   else ((True, None), (DeprecatedSetAccountRead c (BytesToHash env k) acc, found, a))))))"

text \<open>
  The buffer of the warming scan (source lines 85-89): a copy of the matched prefix, with
  a zero nibble appended when its length is odd.
\<close>

definition padded :: "bytes \<Rightarrow> bytes" where
  "padded ihK = (if length ihK mod 2 = 1 then ihK @ [0] else ihK)"

text \<open>
  The warming scan (source lines 85-118): the matched prefix is padded to an even number
  of nibbles and compressed, the hashed-account bucket is walked under it with
  \<^verbatim>\<open>len(ihK)*4\<close> fixed bits, an error of the walk is returned at once, and otherwise the
  address is marked Absent when it was not found, the prefix is marked loaded, and the
  account found (or nil) is returned.
\<close>

definition warmAccounts ::
  "Env \<Rightarrow> StateCache \<Rightarrow> bytes \<Rightarrow> bytes \<Rightarrow> bytes \<Rightarrow>
   (error + Account option) \<times> StateCache \<times> access list" where
  "warmAccounts env c address hashed ihK =
     (let fixedBits = length ihK * 4;
          buf = padded ihK
      in case CompressNibbles buf of
           None \<Rightarrow> (Inl Panic, c, [])
         | Some buf' \<Rightarrow>
             (case dbWalk env HashedAccountsBucket buf' fixedBits (accountVisit env hashed)
                     (c, False, None) of
                (Some err, (c1, found, a)) \<Rightarrow>
                  (Inl err, c1, [DbWalk HashedAccountsBucket buf' fixedBits])
              | (None, (c1, found, a)) \<Rightarrow>
                  (let c2 = (if \<not> found then SetAccountAbsent (Hash env) c1 address else c1)
                   in case MarkAccountTrieAsLoaded c2 ihK of
                        None \<Rightarrow> (Inl Panic, c2, [DbWalk HashedAccountsBucket buf' fixedBits])
                      | Some c3 \<Rightarrow> (Inr a, c3, [DbWalk HashedAccountsBucket buf' fixedBits]))))"

text \<open>
  \<^verbatim>\<open>ReadAccountData\<close> (source lines 29-120): the direct lookup in the account cache; the
  branch of the switched-off flat mode; the hash and its nibbles; the deepest-prefix
  search with its reload; the point lookup when no prefix matched (\<^verbatim>\<open>ihK == nil\<close>); the
  Absent answer when the matched subtree has no state or is loaded already; the warming
  scan otherwise.
\<close>

definition ReadAccountData ::
  "Env \<Rightarrow> StateCache \<Rightarrow> bytes \<Rightarrow> (error + Account option) \<times> StateCache \<times> access list" where
  "ReadAccountData env c address =
     (case GetAccount (Hash env) c address of
        Some a \<Rightarrow> (Inr a, c, [])
      | None \<Rightarrow>
          if \<not> ReadStateByPrefixes then readDirect env c address
          else
            (let hashed = Hash env address;
                 hashedNibbles = DecompressNibbles hashed
             in case findTrie env c hashedNibbles of
                  (Inl err, c1, log1) \<Rightarrow> (Inl err, c1, log1)
                | (Inr (ihK, hs, alreadyLoaded), c1, log1) \<Rightarrow>
                    (case ihK of
                       None \<Rightarrow>
                         (case readDirect env c1 address of
                            (r, c2, log2) \<Rightarrow> (r, c2, log1 @ log2))
                     | Some K \<Rightarrow>
                         if \<not> hs \<or> alreadyLoaded
                         then (Inr None, SetAccountAbsent (Hash env) c1 address, log1)
                         else
                           (case warmAccounts env c1 address hashed K of
                              (r, c2, log2) \<Rightarrow> (r, c2, log1 @ log2)))))"

section \<open>Sequences of calls and their store accesses\<close>

text \<open>
  The hasher fills a \<^verbatim>\<open>common.Hash\<close>, and \<^verbatim>\<open>common.BytesToHash\<close> of the bytes of a hash
  is that hash: \<open>hashOk\<close> says so of the parameters \<open>Hash\<close> and \<open>BytesToHash\<close>.
\<close>

definition hashOk :: "Env \<Rightarrow> bool" where
  "hashOk env = (\<forall>a. BytesToHash env (Hash env a) = Hash env a)"

text \<open>
  A call of one of the five methods of the cached reader, and the cache after a sequence
  of calls, whatever each of them returns.
\<close>

datatype call =
    CallAccountData bytes
  | CallAccountStorage bytes "64 word" bytes
  | CallAccountCode bytes "64 word" bytes
  | CallAccountCodeSize bytes "64 word" bytes
  | CallAccountIncarnation bytes

fun runCall :: "Env \<Rightarrow> StateCache \<Rightarrow> call \<Rightarrow> StateCache" where
  "runCall env c (CallAccountData a) = fst (snd (ReadAccountData env c a))"
| "runCall env c (CallAccountStorage a i k) = fst (snd (ReadAccountStorage env c a i k))"
| "runCall env c (CallAccountCode a i h) = fst (snd (ReadAccountCode env c a i h))"
| "runCall env c (CallAccountCodeSize a i h) = fst (snd (ReadAccountCodeSize env c a i h))"
| "runCall env c (CallAccountIncarnation a) = fst (snd (ReadAccountIncarnation env c a))"

fun runCalls :: "Env \<Rightarrow> StateCache \<Rightarrow> call list \<Rightarrow> StateCache" where
  "runCalls env c [] = c"
| "runCalls env c (x # xs) = runCalls env (runCall env c x) xs"

text \<open>The accesses that are range scans of the trie bucket, and of the hashed-account bucket.\<close>

fun isTrieScan :: "access \<Rightarrow> bool" where
  "isTrieScan (DbWalk TrieOfAccountsBucket k n) = True"
| "isTrieScan _ = False"


text \<open>
  The effect of the walk over the trie bucket on the cache: every entry is inserted, in
  order.
\<close>

definition insertNodes :: "Env \<Rightarrow> StateCache \<Rightarrow> (bytes \<times> bytes) list \<Rightarrow> StateCache" where
  "insertNodes env c es = foldl (\<lambda>c (k, v). snd (trieVisit env c k v)) c es"

section \<open>A test double of the backing store\<close>

text \<open>
  A store over two sorted lists of entries, for running the reader on concrete inputs.
  Its cursor follows section 6 of the specification: the entries from \<open>startkey\<close> on, in
  ascending key order, whose first \<open>fixedbits\<close> bits are those of \<open>startkey\<close>. The scan of
  the hashed-account bucket ends with the error \<open>fault\<close>, if any, after its entries. The
  hash pads or cuts the address to 32 bytes on the right; a key becomes a hash by cutting
  or padding it to 32 bytes on the left; an account is stored as the one byte of its nonce,
  a trie node as one byte of flags.
\<close>

fun bytesLess :: "bytes \<Rightarrow> bytes \<Rightarrow> bool" where
  "bytesLess [] [] = False"
| "bytesLess [] (y # ys) = True"
| "bytesLess (x # xs) [] = False"
| "bytesLess (x # xs) (y # ys) = (x < y \<or> (x = y \<and> bytesLess xs ys))"

definition keyBits :: "bytes \<Rightarrow> bool list" where
  "keyBits k = concat (map (\<lambda>b. map (bit b) [7, 6, 5, 4, 3, 2, 1, 0]) k)"

definition inRange :: "bytes \<Rightarrow> nat \<Rightarrow> bytes \<Rightarrow> bool" where
  "inRange startkey fixedbits k =
     (\<not> bytesLess k startkey \<and> fixedbits \<le> length (keyBits k) \<and>
      take fixedbits (keyBits k) = take fixedbits (keyBits startkey))"

definition testHash :: "bytes \<Rightarrow> bytes" where
  "testHash a = take 32 (a @ replicate 32 0)"

definition testBytesToHash :: "bytes \<Rightarrow> bytes" where
  "testBytesToHash b =
     (let b' = (if length b > 32 then drop (length b - 32) b else b)
      in replicate (32 - length b') 0 @ b')"

definition testAccount :: "byte \<Rightarrow> Account" where
  "testAccount n = \<lparr>Nonce = ucast n, Balance = 0, CodeHash = [], Root = [], Incarnation = 0\<rparr>"

definition testDecode :: "bytes \<Rightarrow> error + Account" where
  "testDecode v = (case v of [n] \<Rightarrow> Inr (testAccount n) | _ \<Rightarrow> Inl DecodeError)"

definition testUnmarshal :: "bytes \<Rightarrow> bool \<times> bool \<times> bool \<times> bytes" where
  "testUnmarshal v =
     (case v of
        [] \<Rightarrow> (False, False, False, [])
      | b # rest \<Rightarrow> (bit b 0, bit b 1, bit b 2, rest))"

definition testEnv ::
  "(bytes \<times> bytes) list \<Rightarrow> (bytes \<times> bytes) list \<Rightarrow> error option \<Rightarrow> (bytes \<times> Account) list \<Rightarrow> Env" where
  "testEnv trieB acctB fault plain =
     \<lparr>Hash = testHash, DecodeForStorage = testDecode, UnmarshalTrieNodeTyped = testUnmarshal,
      BytesToHash = testBytesToHash, emptyCodeHash = [0xc5],
      Cursor = (\<lambda>b startkey fixedbits.
         (case b of
            TrieOfAccountsBucket \<Rightarrow>
              (filter (\<lambda>(k, v). inRange startkey fixedbits k) trieB, None)
          | HashedAccountsBucket \<Rightarrow>
              (filter (\<lambda>(k, v). inRange startkey fixedbits k) acctB, fault))),
      rdAccountData = (\<lambda>a. Inr (map_of plain a)),
      rdAccountStorage = (\<lambda>a i k. Inr [7]),
      rdAccountCode = (\<lambda>a i h. Inr (replicate (1024 + unat i) 0)),
      rdAccountIncarnation = (\<lambda>a. Inr 0)\<rparr>"

definition emptyCache :: StateCache where
  "emptyCache =
     \<lparr>accounts = Map.empty, accountTrie = Map.empty, storage = Map.empty,
      code = Map.empty, deleted = Map.empty\<rparr>"

text \<open>
  The scenario of section 8 of the specification: an empty cache, one trie node at the
  prefix \<open>f0\<close> with \<open>hasState\<close>, and one account whose hashed address starts with
  \<open>f0a9\<close>; a second address under \<open>f0\<close> has no account.
\<close>

definition addrA :: bytes where
  "addrA = [0xf0, 0xa9]"

definition addrB :: bytes where
  "addrB = [0xf0, 0xb1]"

definition addrC :: bytes where
  "addrC = [0xf0, 0xc3]"

definition env1 :: Env where
  "env1 = testEnv [([0xf, 0x0], [1])] [(testHash addrA, [5])] None []"

text \<open>
  Variants of the scenario: a store whose second account under \<open>f0\<close> cannot be decoded;
  a store with two accounts under \<open>f0\<close>; a store with no trie node at all, whose reader
  knows the account of the first address; a cache whose index says that \<open>f0\<close> has no state.
\<close>

definition env2 :: Env where
  "env2 = testEnv [([0xf, 0x0], [1])] [(testHash addrA, [5]), (testHash addrB, [])] None []"

definition env3 :: Env where
  "env3 = testEnv [([0xf, 0x0], [1])] [(testHash addrA, [5]), (testHash addrC, [6])] None []"

definition env4 :: Env where
  "env4 = testEnv [] [] None [(addrA, testAccount 5)]"


section \<open>Properties of the cache and of the walks\<close>

lemma firstStored_SomeD:
  "firstStored t Ks = Some (K, d) \<Longrightarrow> K \<in> set Ks \<and> t K = Some d"
  by (induction Ks) (auto split: option.splits)

lemma firstStored_None_iff:
  "firstStored t Ks = None \<longleftrightarrow> (\<forall>K\<in>set Ks. t K = None)"
  by (induction Ks) (auto split: option.splits)


lemma FindDeepest_Some:
  assumes "FindDeepestAccountTrie c P = (Some K, hs, ld, m)"
  shows "\<exists>d. accountTrie c K = Some d \<and> hs = hasState d \<and> ld = loaded d \<and> \<not> m \<and> prefix K P"
proof -
  from assms obtain d where fs: "firstStored (accountTrie c) (rev (prefixes P)) = Some (K, d)"
    and fl: "hs = hasState d" "ld = loaded d" "\<not> m"
    by (auto simp: FindDeepestAccountTrie_def split: option.splits)
  from firstStored_SomeD [OF fs] have "K \<in> set (prefixes P)" "accountTrie c K = Some d"
    by simp_all
  with fl show ?thesis by (auto simp: in_set_prefixes)
qed

lemma FindDeepest_None:
  assumes "FindDeepestAccountTrie c P = (None, hs, ld, m)"
  shows "m \<and> \<not> hs \<and> \<not> ld \<and> (\<forall>K. prefix K P \<longrightarrow> accountTrie c K = None)"
proof -
  from assms have fs: "firstStored (accountTrie c) (rev (prefixes P)) = None"
    and fl: "m" "\<not> hs" "\<not> ld"
    by (auto simp: FindDeepestAccountTrie_def split: option.splits)
  from fs have "\<forall>K. prefix K P \<longrightarrow> accountTrie c K = None"
    by (simp add: firstStored_None_iff in_set_prefixes)
  with fl show ?thesis by simp
qed

lemma FindDeepest_cong:
  "accountTrie c = accountTrie c' \<Longrightarrow> FindDeepestAccountTrie c P = FindDeepestAccountTrie c' P"
  by (simp add: FindDeepestAccountTrie_def)


lemma Mark_frame:
  "MarkAccountTrieAsLoaded c K = Some c' \<Longrightarrow>
   accounts c' = accounts c \<and> storage c' = storage c \<and> code c' = code c \<and> deleted c' = deleted c"
  by (auto simp: MarkAccountTrieAsLoaded_def split: option.splits)

lemma walk_trie:
  "walkEntries (trieVisit env) es cerr c =
     (cerr, foldl (\<lambda>c (k, v). snd (trieVisit env c k v)) c es)"
  by (induction es arbitrary: c) (auto simp: trieVisit_def split: prod.splits)

lemma trieVisit_frame:
  "accounts (snd (trieVisit env c k v)) = accounts c \<and>
   storage (snd (trieVisit env c k v)) = storage c \<and>
   code (snd (trieVisit env c k v)) = code c \<and>
   deleted (snd (trieVisit env c k v)) = deleted c"
  by (simp add: trieVisit_def SetAccountTrieRead_def split: prod.splits)

lemma trie_fold_frame:
  "accounts (foldl (\<lambda>c (k, v). snd (trieVisit env c k v)) c es) = accounts c \<and>
   storage (foldl (\<lambda>c (k, v). snd (trieVisit env c k v)) c es) = storage c \<and>
   code (foldl (\<lambda>c (k, v). snd (trieVisit env c k v)) c es) = code c \<and>
   deleted (foldl (\<lambda>c (k, v). snd (trieVisit env c k v)) c es) = deleted c"
  by (induction es arbitrary: c) (simp_all add: trieVisit_frame split: prod.splits)

lemma trieVisit_dom:
  "dom (accountTrie (snd (trieVisit env c k v))) = insert k (dom (accountTrie c))"
  by (simp add: trieVisit_def SetAccountTrieRead_def split: prod.splits)

lemma trie_fold_dom:
  "dom (accountTrie (foldl (\<lambda>c (k, v). snd (trieVisit env c k v)) c es))
     = dom (accountTrie c) \<union> fst ` set es"
  by (induction es arbitrary: c) (auto simp: trieVisit_dom split: prod.splits)

lemma accountVisit_continue:
  "accountVisit env h s k v = ((goOn, err), s') \<Longrightarrow> err = None \<Longrightarrow> goOn"
  by (auto simp: accountVisit_def split: prod.splits option.splits sum.splits if_splits)

lemma accountVisit_frame:
  "accountVisit env h (c, f, a) k v = (r, (c', f', a')) \<Longrightarrow>
   accountTrie c' = accountTrie c \<and> storage c' = storage c \<and> code c' = code c \<and>
   deleted c' = deleted c"
  by (auto simp: accountVisit_def DeprecatedSetAccountRead_def
      split: prod.splits option.splits sum.splits if_splits)

lemma accountVisit_mono:
  "accountVisit env h (c, f, a) k v = (r, (c', f', a')) \<Longrightarrow>
   accounts c x = Some y \<Longrightarrow> accounts c' x = Some y"
  by (auto simp: accountVisit_def DeprecatedSetAccountRead_def GetAccountByHashedAddress_def
      split: prod.splits option.splits sum.splits if_splits)

lemma walk_acc_frame:
  "walkEntries (accountVisit env h) es cerr (c, f, a) = (r, (c', f', a')) \<Longrightarrow>
   accountTrie c' = accountTrie c \<and> storage c' = storage c \<and> code c' = code c \<and>
   deleted c' = deleted c"
proof (induction es arbitrary: c f a)
  case Nil
  then show ?case by simp
next
  case (Cons e es)
  obtain k v where e: "e = (k, v)" by (cases e)
  obtain goOn err c1 f1 a1 where vis: "accountVisit env h (c, f, a) k v = ((goOn, err), (c1, f1, a1))"
    by (metis prod.exhaust)
  note fr = accountVisit_frame [OF vis]
  show ?case
  proof (cases err)
    case (Some x)
    with Cons.prems e vis fr show ?thesis by simp
  next
    case None
    with accountVisit_continue [OF vis] have goOn by simp
    with Cons.prems e vis None have "walkEntries (accountVisit env h) es cerr (c1, f1, a1) = (r, (c', f', a'))"
      by simp
    from Cons.IH [OF this] fr show ?thesis by simp
  qed
qed

lemma walk_invariant:
  assumes "walkEntries visit es cerr s = (r, s')"
    and "P s"
    and "\<And>s k v res s1. (k, v) \<in> set es \<Longrightarrow> P s \<Longrightarrow> visit s k v = (res, s1) \<Longrightarrow> P s1"
  shows "P s'"
  using assms
proof (induction es arbitrary: s)
  case Nil
  then show ?case by simp
next
  case (Cons e es)
  obtain k v where e: "e = (k, v)" by (cases e)
  obtain goOn err s1 where vis: "visit s k v = ((goOn, err), s1)"
    by (metis prod.exhaust)
  have P1: "P s1" using Cons.prems(2,3) vis e by (metis list.set_intros(1))
  show ?case
  proof (cases "err = None \<and> goOn")
    case True
    with Cons.prems(1) e vis have "walkEntries visit es cerr s1 = (r, s')" by simp
    then show ?thesis
      using Cons.IH [of s1] P1 Cons.prems(3) by (metis list.set_intros(2))
  next
    case False
    with Cons.prems(1) e vis have "s' = s1" by (cases err) (auto split: if_splits)
    with P1 show ?thesis by simp
  qed
qed

lemma walk_acc_mono:
  assumes "walkEntries (accountVisit env h) es cerr (c, f, a) = (r, (c', f', a'))"
    and "accounts c x = Some y"
  shows "accounts c' x = Some y"
proof -
  have "(\<lambda>s. accounts (fst s) x = Some y) (c', f', a')"
    by (rule walk_invariant [OF assms(1)]) (use assms(2) in \<open>auto dest: accountVisit_mono\<close>)
  then show ?thesis by simp
qed

lemma accountVisit_new:
  assumes "accountVisit env h (c, f, a) k v = (r, (c', f', a'))"
    and "accounts c x = None" and "accounts c' x = Some y"
  shows "\<exists>acc. x = BytesToHash env k \<and> DecodeForStorage env v = Inr acc \<and> y = Some acc"
  using assms
  by (auto simp: accountVisit_def DeprecatedSetAccountRead_def GetAccountByHashedAddress_def
      split: prod.splits option.splits sum.splits if_splits)

lemma walk_acc_new:
  assumes "walkEntries (accountVisit env h) es cerr (c, f, a) = (r, (c', f', a'))"
    and "accounts c x = None" and "accounts c' x = Some y"
  shows "\<exists>k v acc. (k, v) \<in> set es \<and> x = BytesToHash env k \<and> DecodeForStorage env v = Inr acc \<and> y = Some acc"
proof -
  let ?P = "\<lambda>s. \<forall>y. accounts (fst s) x = Some y \<longrightarrow>
      (\<exists>k v acc. (k, v) \<in> set es \<and> x = BytesToHash env k \<and> DecodeForStorage env v = Inr acc \<and> y = Some acc)"
  have "?P (c', f', a')"
  proof (rule walk_invariant [OF assms(1)])
    show "?P (c, f, a)" using assms(2) by simp
  next
    fix s k v res s1
    assume kv: "(k, v) \<in> set es" and P: "?P s" and vis: "accountVisit env h s k v = (res, s1)"
    obtain c0 f0 a0 where s: "s = (c0, f0, a0)" by (cases s)
    obtain c1 f1 a1 where s1: "s1 = (c1, f1, a1)" by (cases s1)
    show "?P s1"
    proof (intro allI impI)
      fix y assume y: "accounts (fst s1) x = Some y"
      show "\<exists>k v acc. (k, v) \<in> set es \<and> x = BytesToHash env k \<and> DecodeForStorage env v = Inr acc \<and> y = Some acc"
      proof (cases "accounts c0 x")
        case None
        from accountVisit_new [OF vis [unfolded s s1] None] y s1 kv show ?thesis by auto
      next
        case (Some y0)
        from accountVisit_mono [OF vis [unfolded s s1] Some] y s1 have "y = y0" by simp
        with P Some s show ?thesis by simp
      qed
    qed
  qed
  with assms(3) show ?thesis by simp
qed

lemma accountVisit_found:
  assumes "accountVisit env h (c, f, a) k v = (r, (c', f', a'))"
    and "f \<longrightarrow> accounts c (BytesToHash env h) = Some a"
  shows "f' \<longrightarrow> accounts c' (BytesToHash env h) = Some a'"
  using assms
  by (auto simp: accountVisit_def DeprecatedSetAccountRead_def GetAccountByHashedAddress_def
      split: prod.splits option.splits sum.splits if_splits)

lemma walk_acc_found:
  assumes "walkEntries (accountVisit env h) es cerr (c, f, a) = (r, (c', f', a'))"
    and "f \<longrightarrow> accounts c (BytesToHash env h) = Some a"
  shows "f' \<longrightarrow> accounts c' (BytesToHash env h) = Some a'"
proof -
  let ?P = "\<lambda>s. fst (snd s) \<longrightarrow> accounts (fst s) (BytesToHash env h) = Some (snd (snd s))"
  have "?P (c', f', a')"
    by (rule walk_invariant [OF assms(1)]) (use assms(2) in \<open>auto dest: accountVisit_found\<close>)
  then show ?thesis by simp
qed

lemma accountVisit_notfound:
  assumes "accountVisit env h (c, f, a) k v = (r, (c', f', a'))"
    and "\<not> f \<longrightarrow> a = None"
  shows "\<not> f' \<longrightarrow> a' = None"
  using assms
  by (auto simp: accountVisit_def split: prod.splits option.splits sum.splits if_splits)

lemma walk_acc_notfound:
  assumes "walkEntries (accountVisit env h) es cerr (c, f, a) = (r, (c', f', a'))"
    and "\<not> f \<longrightarrow> a = None"
  shows "\<not> f' \<longrightarrow> a' = None"
proof -
  let ?P = "\<lambda>s. \<not> fst (snd s) \<longrightarrow> snd (snd s) = None"
  have "?P (c', f', a')"
    by (rule walk_invariant [OF assms(1)]) (use assms(2) in \<open>auto dest: accountVisit_notfound\<close>)
  then show ?thesis by simp
qed

lemma walk_acc_success:
  "walkEntries (accountVisit env h) es cerr s = (None, s') \<Longrightarrow>
   cerr = None \<and> s' = foldl (\<lambda>s (k, v). snd (accountVisit env h s k v)) s es"
proof (induction es arbitrary: s)
  case Nil
  then show ?case by simp
next
  case (Cons e es)
  obtain k v where e: "e = (k, v)" by (cases e)
  obtain goOn err s1 where vis: "accountVisit env h s k v = ((goOn, err), s1)"
    by (metis prod.exhaust)
  show ?case
  proof (cases err)
    case (Some x)
    with Cons.prems e vis show ?thesis by simp
  next
    case None
    with accountVisit_continue [OF vis] have goOn by simp
    with Cons.prems e vis None have "walkEntries (accountVisit env h) es cerr s1 = (None, s')"
      by simp
    from Cons.IH [OF this] e vis show ?thesis by simp
  qed
qed

lemma accountVisit_caches:
  assumes "accountVisit env h (c, f, a) k v = ((goOn, None), (c', f', a'))"
  shows "accounts c' (BytesToHash env k) \<noteq> None \<and> (k = h \<longrightarrow> f')"
  using assms
  by (auto simp: accountVisit_def DeprecatedSetAccountRead_def GetAccountByHashedAddress_def
      split: prod.splits option.splits sum.splits if_splits)

lemma accountVisit_keeps_found:
  "accountVisit env h (c, f, a) k v = (r, (c', f', a')) \<Longrightarrow> f \<Longrightarrow> f'"
  by (auto simp: accountVisit_def split: prod.splits option.splits sum.splits if_splits)

lemma walk_acc_keeps_found:
  assumes "walkEntries (accountVisit env h) es cerr (c, f, a) = (r, (c', f', a'))" and "f"
  shows "f'"
proof -
  have "(\<lambda>s. fst (snd s)) (c', f', a')"
    by (rule walk_invariant [OF assms(1)]) (use assms(2) in \<open>auto dest: accountVisit_keeps_found\<close>)
  then show ?thesis by simp
qed

lemma walk_acc_visited:
  "walkEntries (accountVisit env h) es cerr (c, f, a) = (None, (c', f', a')) \<Longrightarrow>
   (k, v) \<in> set es \<Longrightarrow> accounts c' (BytesToHash env k) \<noteq> None \<and> (k = h \<longrightarrow> f')"
proof (induction es arbitrary: c f a)
  case Nil
  then show ?case by simp
next
  case (Cons e es)
  obtain k0 v0 where e: "e = (k0, v0)" by (cases e)
  obtain goOn err c1 f1 a1 where vis: "accountVisit env h (c, f, a) k0 v0 = ((goOn, err), (c1, f1, a1))"
    by (metis prod.exhaust)
  from Cons.prems(1) e vis have err: "err = None" by (cases err) simp_all
  with accountVisit_continue [OF vis] have goOn by simp
  with Cons.prems(1) e vis err
  have rest: "walkEntries (accountVisit env h) es cerr (c1, f1, a1) = (None, (c', f', a'))"
    by simp
  show ?case
  proof (cases "(k, v) = (k0, v0)")
    case True
    from accountVisit_caches [OF vis [unfolded err]]
    obtain y where y: "accounts c1 (BytesToHash env k0) = Some y" and f1: "k0 = h \<longrightarrow> f1" by auto
    from walk_acc_mono [OF rest y] walk_acc_keeps_found [OF rest] f1 True show ?thesis by auto
  next
    case False
    with Cons.prems(2) e have "(k, v) \<in> set es" by auto
    from Cons.IH [OF rest this] show ?thesis .
  qed
qed

lemma CompressNibbles_even:
  "even (length xs) \<Longrightarrow> \<exists>ys. CompressNibbles xs = Some ys"
  by (induction xs rule: CompressNibbles.induct) auto

lemma CompressNibbles_padded:
  "\<exists>buf. CompressNibbles (padded K) = Some buf"
proof (rule CompressNibbles_even)
  show "even (length (padded K))"
    unfolding padded_def by (cases "length K mod 2 = 1") (simp_all, presburger+)
qed

subsection \<open>The modelled search returns the longest stored prefix\<close>

lemma firstStored_longest:
  "firstStored t (rev (prefixes P)) = Some (K, d) \<Longrightarrow> prefix K' P \<Longrightarrow> t K' \<noteq> None \<Longrightarrow>
   length K' \<le> length K"
proof (induction P rule: rev_induct)
  case Nil
  then show ?case by simp
next
  case (snoc x xs)
  show ?case
  proof (cases "t (xs @ [x])")
    case (Some d')
    with snoc.prems(1) have "K = xs @ [x]" by simp
    with prefix_length_le [OF snoc.prems(2)] show ?thesis by simp
  next
    case None
    with snoc.prems(1) have fs: "firstStored t (rev (prefixes xs)) = Some (K, d)" by simp
    from None snoc.prems(3) have "K' \<noteq> xs @ [x]" by auto
    with snoc.prems(2) have "prefix K' xs" by (auto simp: prefix_snoc)
    from snoc.IH [OF fs this snoc.prems(3)] show ?thesis .
  qed
qed

lemma FindDeepest_longest:
  assumes "FindDeepestAccountTrie c P = (Some K, hs, ld, m)"
    and "prefix K' P" and "accountTrie c K' \<noteq> None"
  shows "length K' \<le> length K"
proof -
  from assms(1) obtain d where "firstStored (accountTrie c) (rev (prefixes P)) = Some (K, d)"
    by (auto simp: FindDeepestAccountTrie_def split: option.splits)
  from firstStored_longest [OF this assms(2,3)] show ?thesis .
qed

lemma FindDeepest_miss_None:
  "FindDeepestAccountTrie c P = (ihK, hs, ld, True) \<Longrightarrow> ihK = None"
  by (auto simp: FindDeepestAccountTrie_def split: option.splits)

subsection \<open>The phases of ReadAccountData\<close>

lemma insertNodes_frame:
  "accounts (insertNodes env c es) = accounts c \<and> storage (insertNodes env c es) = storage c \<and>
   code (insertNodes env c es) = code c \<and> deleted (insertNodes env c es) = deleted c"
  unfolding insertNodes_def by (rule trie_fold_frame)

lemma insertNodes_dom:
  "dom (accountTrie (insertNodes env c es)) = dom (accountTrie c) \<union> fst ` set es"
  unfolding insertNodes_def by (rule trie_fold_dom)

lemma findTrie_hit:
  "FindDeepestAccountTrie c P = (ihK, hs, ld, False) \<Longrightarrow>
   findTrie env c P = (Inr (ihK, hs, ld), c, [])"
  by (simp add: findTrie_def)

lemma findTrie_miss:
  assumes "FindDeepestAccountTrie c P = (ihK, hs, ld, True)"
    and "Cursor env TrieOfAccountsBucket (sliceOf ihK) (length (sliceOf ihK) * 8) = (es, cerr)"
  shows "findTrie env c P =
     (case cerr of
        Some err \<Rightarrow> Inl err
      | None \<Rightarrow>
          (case FindDeepestAccountTrie (insertNodes env c es) P of
             (ihK', hs', ld', m') \<Rightarrow> Inr (ihK', hs', ld')),
      insertNodes env c es,
      [DbWalk TrieOfAccountsBucket (sliceOf ihK) (length (sliceOf ihK) * 8)])"
  using assms
  by (simp add: findTrie_def dbWalk_def walk_trie insertNodes_def split: option.splits prod.splits)

lemma findTrie_props:
  assumes "findTrie env c P = (tr, c1, log1)"
  shows "accounts c1 = accounts c \<and> storage c1 = storage c \<and> code c1 = code c \<and>
     deleted c1 = deleted c \<and>
     (log1 = [] \<or> (\<exists>k n. log1 = [DbWalk TrieOfAccountsBucket k n])) \<and>
     (\<forall>ihK hs ld. tr = Inr (ihK, hs, ld) \<longrightarrow> (\<exists>m. FindDeepestAccountTrie c1 P = (ihK, hs, ld, m)))"
proof -
  obtain ihK hs ld m where fd: "FindDeepestAccountTrie c P = (ihK, hs, ld, m)"
    by (metis prod.exhaust)
  show ?thesis
  proof (cases m)
    case False
    with fd assms findTrie_hit [of c P ihK hs ld env] show ?thesis by auto
  next
    case True
    obtain es cerr where cur:
      "Cursor env TrieOfAccountsBucket (sliceOf ihK) (length (sliceOf ihK) * 8) = (es, cerr)"
      by (metis prod.exhaust)
    from fd True have fd': "FindDeepestAccountTrie c P = (ihK, hs, ld, True)" by simp
    from findTrie_miss [OF fd' cur] assms
    have c1: "c1 = insertNodes env c es"
      and lg: "log1 = [DbWalk TrieOfAccountsBucket (sliceOf ihK) (length (sliceOf ihK) * 8)]"
      and tr: "tr = (case cerr of Some err \<Rightarrow> Inl err
        | None \<Rightarrow> (case FindDeepestAccountTrie (insertNodes env c es) P of
             (ihK', hs', ld', m') \<Rightarrow> Inr (ihK', hs', ld')))"
      by simp_all
    from tr have "\<forall>ihK hs ld. tr = Inr (ihK, hs, ld) \<longrightarrow>
        (\<exists>m. FindDeepestAccountTrie c1 P = (ihK, hs, ld, m))"
      unfolding c1 by (auto split: option.splits prod.splits)
    with insertNodes_frame [of env c es] c1 lg show ?thesis by simp
  qed
qed

lemma findTrie_Some_stored:
  assumes "findTrie env c P = (Inr (Some K, hs, ld), c1, log1)"
  shows "\<exists>d. accountTrie c1 K = Some d \<and> hs = hasState d \<and> ld = loaded d \<and>
     FindDeepestAccountTrie c1 P = (Some K, hs, ld, False)"
proof -
  from findTrie_props [OF assms] obtain m where fd: "FindDeepestAccountTrie c1 P = (Some K, hs, ld, m)"
    by blast
  from FindDeepest_Some [OF fd] fd show ?thesis by auto
qed

lemma Mark_trie:
  "MarkAccountTrieAsLoaded c K = Some c' \<Longrightarrow>
   \<exists>d. accountTrie c K = Some d \<and> accountTrie c' = (accountTrie c)(K \<mapsto> d\<lparr>loaded := True\<rparr>)"
  by (auto simp: MarkAccountTrieAsLoaded_def split: option.splits)

lemma readDirect_props:
  assumes "readDirect env c address = (r, c', l2)"
  shows "l2 = [RdAccountData address] \<and> accountTrie c' = accountTrie c \<and>
     storage c' = storage c \<and> code c' = code c \<and> deleted c' = deleted c \<and>
     (\<forall>x. x \<noteq> Hash env address \<longrightarrow> accounts c' x = accounts c x) \<and>
     (r = Inr None \<longrightarrow> accounts c' (Hash env address) = Some None)"
  using assms
  by (auto simp: readDirect_def SetAccountAbsent_def SetAccountRead_def DeprecatedSetAccountRead_def
      split: sum.splits option.splits)

lemma SetAccountAbsent_props:
  "accountTrie (SetAccountAbsent H c address) = accountTrie c \<and>
   storage (SetAccountAbsent H c address) = storage c \<and>
   code (SetAccountAbsent H c address) = code c \<and>
   deleted (SetAccountAbsent H c address) = deleted c \<and>
   accounts (SetAccountAbsent H c address) = (accounts c)(H address \<mapsto> None)"
  by (simp add: SetAccountAbsent_def)

lemma warm_unfold:
  assumes "CompressNibbles (padded K) = Some buf"
    and "Cursor env HashedAccountsBucket buf (length K * 4) = (es, cerr)"
    and "walkEntries (accountVisit env h) es cerr (c1, False, None) = (w, (cw, f, a))"
    and "accountTrie c1 K = Some d"
  shows "warmAccounts env c1 address h K =
     (case w of
        Some err \<Rightarrow> (Inl err, cw, [DbWalk HashedAccountsBucket buf (length K * 4)])
      | None \<Rightarrow>
          (Inr a,
           (if \<not> f then SetAccountAbsent (Hash env) cw address else cw)
              \<lparr>accountTrie := (accountTrie c1)(K \<mapsto> d\<lparr>loaded := True\<rparr>)\<rparr>,
           [DbWalk HashedAccountsBucket buf (length K * 4)]))"
proof -
  from walk_acc_frame [OF assms(3)] have fr: "accountTrie cw = accountTrie c1" by simp
  show ?thesis
    using assms fr
    by (simp add: warmAccounts_def dbWalk_def Let_def MarkAccountTrieAsLoaded_def
        SetAccountAbsent_def split: option.splits)
qed

lemma warm_cases:
  assumes "warmAccounts env c1 address h K = (r, c', l2)"
    and "accountTrie c1 K = Some d"
  obtains buf es cerr w cw f a where
    "CompressNibbles (padded K) = Some buf"
    "Cursor env HashedAccountsBucket buf (length K * 4) = (es, cerr)"
    "walkEntries (accountVisit env h) es cerr (c1, False, None) = (w, (cw, f, a))"
    "l2 = [DbWalk HashedAccountsBucket buf (length K * 4)]"
    "w = None \<longrightarrow> r = Inr a \<and>
       MarkAccountTrieAsLoaded (if \<not> f then SetAccountAbsent (Hash env) cw address else cw) K
         = Some c'"
    "\<forall>err. w = Some err \<longrightarrow> r = Inl err \<and> c' = cw"
proof -
  from CompressNibbles_padded obtain buf where buf: "CompressNibbles (padded K) = Some buf" by blast
  obtain es cerr where cur: "Cursor env HashedAccountsBucket buf (length K * 4) = (es, cerr)"
    by (metis prod.exhaust)
  obtain w cw f a where wk:
    "walkEntries (accountVisit env h) es cerr (c1, False, None) = (w, (cw, f, a))"
    by (metis prod.exhaust)
  from walk_acc_frame [OF wk] have fr: "accountTrie cw = accountTrie c1" by simp
  from warm_unfold [OF buf cur wk assms(2), of address] assms(1) assms(2) fr
  have "l2 = [DbWalk HashedAccountsBucket buf (length K * 4)]"
    "w = None \<longrightarrow> r = Inr a \<and>
       MarkAccountTrieAsLoaded (if \<not> f then SetAccountAbsent (Hash env) cw address else cw) K
         = Some c'"
    "\<forall>err. w = Some err \<longrightarrow> r = Inl err \<and> c' = cw"
    by (auto simp: MarkAccountTrieAsLoaded_def SetAccountAbsent_def split: option.splits)
  then show ?thesis by (intro that [OF buf cur wk])
qed

lemma walk_acc_error:
  "walkEntries (accountVisit env h) es cerr s = (Some err, s') \<Longrightarrow>
   cerr = Some err \<or> (\<exists>(k, v) \<in> set es. DecodeForStorage env v = Inl err)"
proof (induction es arbitrary: s)
  case Nil
  then show ?case by simp
next
  case (Cons e es)
  obtain k v where e: "e = (k, v)" by (cases e)
  obtain goOn er s1 where vis: "accountVisit env h s k v = ((goOn, er), s1)"
    by (metis prod.exhaust)
  show ?case
  proof (cases er)
    case (Some x)
    with Cons.prems e vis have "x = err" by simp
    with vis Some have "DecodeForStorage env v = Inl err"
      by (auto simp: accountVisit_def split: prod.splits option.splits sum.splits if_splits)
    with e show ?thesis by auto
  next
    case None
    with accountVisit_continue [OF vis] have goOn by simp
    with Cons.prems e vis None have "walkEntries (accountVisit env h) es cerr s1 = (Some err, s')"
      by simp
    from Cons.IH [OF this] show ?thesis by auto
  qed
qed

subsection \<open>Case analysis of a call\<close>

lemma RAD_hit:
  "GetAccount (Hash env) c address = Some a \<Longrightarrow> ReadAccountData env c address = (Inr a, c, [])"
  by (simp add: ReadAccountData_def)

lemma RAD_miss:
  assumes "GetAccount (Hash env) c address = None"
    and "findTrie env c (DecompressNibbles (Hash env address)) = (tr, c1, log1)"
  shows "ReadAccountData env c address =
     (case tr of
        Inl err \<Rightarrow> (Inl err, c1, log1)
      | Inr (ihK, hs, ld) \<Rightarrow>
          (case ihK of
             None \<Rightarrow> (case readDirect env c1 address of (r, c2, log2) \<Rightarrow> (r, c2, log1 @ log2))
           | Some K \<Rightarrow>
               if \<not> hs \<or> ld then (Inr None, SetAccountAbsent (Hash env) c1 address, log1)
               else (case warmAccounts env c1 address (Hash env address) K of
                       (r, c2, log2) \<Rightarrow> (r, c2, log1 @ log2))))"
  using assms
  by (simp add: ReadAccountData_def ReadStateByPrefixes_def Let_def split: sum.splits prod.splits)

lemma RAD_cases:
  assumes "ReadAccountData env c address = (r, c', lg)"
  obtains (hit) a where "GetAccount (Hash env) c address = Some a" "r = Inr a" "c' = c" "lg = []"
  | (trieErr) e c1 where "GetAccount (Hash env) c address = None"
      "findTrie env c (DecompressNibbles (Hash env address)) = (Inl e, c1, lg)" "r = Inl e" "c' = c1"
  | (direct) hs ld c1 log1 l2 where "GetAccount (Hash env) c address = None"
      "findTrie env c (DecompressNibbles (Hash env address)) = (Inr (None, hs, ld), c1, log1)"
      "readDirect env c1 address = (r, c', l2)" "lg = log1 @ l2"
  | (absent) K hs ld c1 where "GetAccount (Hash env) c address = None"
      "findTrie env c (DecompressNibbles (Hash env address)) = (Inr (Some K, hs, ld), c1, lg)"
      "\<not> hs \<or> ld" "r = Inr None" "c' = SetAccountAbsent (Hash env) c1 address"
  | (warm) K c1 log1 l2 where "GetAccount (Hash env) c address = None"
      "findTrie env c (DecompressNibbles (Hash env address)) = (Inr (Some K, True, False), c1, log1)"
      "warmAccounts env c1 address (Hash env address) K = (r, c', l2)" "lg = log1 @ l2"
proof (cases "GetAccount (Hash env) c address")
  case (Some a)
  from assms RAD_hit [OF Some] have "r = Inr a" "c' = c" "lg = []" by simp_all
  with Some show ?thesis by (rule hit)
next
  case None
  obtain tr c1 log1 where ft: "findTrie env c (DecompressNibbles (Hash env address)) = (tr, c1, log1)"
    by (metis prod.exhaust)
  note unf = RAD_miss [OF None ft]
  show ?thesis
  proof (cases tr)
    case (Inl e)
    with unf assms have "r = Inl e" "c' = c1" "lg = log1" by simp_all
    with ft Inl show ?thesis by (intro trieErr [OF None]) simp_all
  next
    case (Inr t)
    obtain ihK hs ld where t: "t = (ihK, hs, ld)" by (metis prod.exhaust)
    show ?thesis
    proof (cases ihK)
      case None' : None
      obtain r2 c2 l2 where rd: "readDirect env c1 address = (r2, c2, l2)" by (metis prod.exhaust)
      with unf assms Inr t None' have "r = r2" "c' = c2" "lg = log1 @ l2" by simp_all
      with ft Inr t None' rd show ?thesis by (intro direct [OF None]) simp_all
    next
      case (Some K)
      show ?thesis
      proof (cases "\<not> hs \<or> ld")
        case True
        with unf assms Inr t Some
        have "r = Inr None" "c' = SetAccountAbsent (Hash env) c1 address" "lg = log1" by auto
        with ft Inr t Some True show ?thesis by (intro absent [OF None]) simp_all
      next
        case False
        obtain r2 c2 l2 where wa: "warmAccounts env c1 address (Hash env address) K = (r2, c2, l2)"
          by (metis prod.exhaust)
        with unf assms Inr t Some False have "r = r2" "c' = c2" "lg = log1 @ l2" by simp_all
        with ft Inr t Some wa False show ?thesis by (intro warm [OF None]) simp_all
      qed
    qed
  qed
qed


lemma RAD_accounts_mono:
  assumes "ReadAccountData env c address = (r, c', lg)"
    and "accounts c x = Some y"
  shows "accounts c' x = Some y"
  using assms(1)
proof (cases rule: RAD_cases)
  case (hit a)
  with assms(2) show ?thesis by simp
next
  case (trieErr e c1)
  from findTrie_props [OF trieErr(2)] trieErr(4) assms(2) show ?thesis by simp
next
  case (direct hs ld c1 log1 l2)
  from direct(1) assms(2) have "x \<noteq> Hash env address"
    by (auto simp: GetAccount_def GetAccountByHashedAddress_def)
  with readDirect_props [OF direct(3)] findTrie_props [OF direct(2)] assms(2)
  show ?thesis by simp
next
  case (absent K hs ld c1)
  from absent(1) assms(2) have "x \<noteq> Hash env address"
    by (auto simp: GetAccount_def GetAccountByHashedAddress_def)
  with absent(5) findTrie_props [OF absent(2)] assms(2)
  show ?thesis by (simp add: SetAccountAbsent_props)
next
  case (warm K c1 log1 l2)
  from warm(1) assms(2) have ne: "x \<noteq> Hash env address"
    by (auto simp: GetAccount_def GetAccountByHashedAddress_def)
  from findTrie_props [OF warm(2)] assms(2) have x1: "accounts c1 x = Some y" by simp
  from findTrie_Some_stored [OF warm(2)] obtain d where d: "accountTrie c1 K = Some d" by blast
  from warm(3) d show ?thesis
  proof (cases rule: warm_cases)
    case (1 buf es cerr w cw f a)
    from walk_acc_mono [OF 1(3) x1] have xw: "accounts cw x = Some y" .
    show ?thesis
    proof (cases w)
      case None
      with 1(5) have mk: "MarkAccountTrieAsLoaded
          (if \<not> f then SetAccountAbsent (Hash env) cw address else cw) K = Some c'" by simp
      from Mark_frame [OF mk] xw ne show ?thesis by (simp add: SetAccountAbsent_props)
    next
      case (Some err)
      with 1(6) xw show ?thesis by simp
    qed
  qed
qed


lemma RAD_trie_dom:
  assumes "ReadAccountData env c address = (r, c', lg)"
    and "findTrie env c (DecompressNibbles (Hash env address)) = (tr, c1, log1)"
    and "GetAccount (Hash env) c address = None"
  shows "dom (accountTrie c') = dom (accountTrie c1) \<and> (\<exists>rest. lg = log1 @ rest \<and>
     filter isTrieScan rest = [] \<and> length rest \<le> 1)"
  using assms(1)
proof (cases rule: RAD_cases)
  case (hit a)
  with assms(3) show ?thesis by simp
next
  case (trieErr e c1)
  with assms(2) show ?thesis by simp
next
  case (direct hs ld c1' log1' l2)
  with assms(2) readDirect_props [OF direct(3)] show ?thesis by simp
next
  case (absent K hs ld c1')
  with assms(2) show ?thesis by (simp add: SetAccountAbsent_props)
next
  case (warm K c1' log1' l2)
  from findTrie_Some_stored [OF warm(2)] obtain d where d: "accountTrie c1' K = Some d" by blast
  from warm(3) d show ?thesis
  proof (cases rule: warm_cases)
    case (1 buf es cerr w cw f a)
    from walk_acc_frame [OF 1(3)] have fr: "accountTrie cw = accountTrie c1'" by simp
    have "dom (accountTrie c') = dom (accountTrie c1')"
    proof (cases w)
      case None
      with 1(5) have mk: "MarkAccountTrieAsLoaded
          (if \<not> f then SetAccountAbsent (Hash env) cw address else cw) K = Some c'" by simp
      from Mark_trie [OF mk] fr d show ?thesis
        by (auto simp: SetAccountAbsent_props split: if_splits)
    next
      case (Some err)
      with 1(6) fr show ?thesis by simp
    qed
    with 1(4) warm(2,4) assms(2) show ?thesis by simp
  qed
qed


lemma runCall_mono:
  assumes "accounts c x = Some y"
  shows "accounts (runCall env c cl) x = Some y"
proof (cases cl)
  case (CallAccountData a)
  obtain r c' lg where rad: "ReadAccountData env c a = (r, c', lg)" by (metis prod.exhaust)
  from RAD_accounts_mono [OF rad assms] rad CallAccountData show ?thesis by simp
next
  case (CallAccountStorage a i k)
  with assms show ?thesis
    by (simp add: ReadAccountStorage_def SetStorageAbsent_def SetStorageRead_def
        split: option.splits sum.splits)
next
  case (CallAccountCode a i h)
  with assms show ?thesis
    by (simp add: ReadAccountCode_def SetCodeRead_def split: option.splits sum.splits)
next
  case (CallAccountCodeSize a i h)
  with assms show ?thesis
    by (simp add: ReadAccountCodeSize_def ReadAccountCode_def SetCodeRead_def
        split: option.splits sum.splits)
next
  case (CallAccountIncarnation a)
  with assms show ?thesis
    by (simp add: ReadAccountIncarnation_def split: option.splits)
qed

lemma runCalls_mono:
  "accounts c x = Some y \<Longrightarrow> accounts (runCalls env c xs) x = Some y"
  by (induction xs arbitrary: c) (simp_all add: runCall_mono)

subsection \<open>Facts about the test double\<close>

lemma hashOk_testEnv: "hashOk (testEnv t a f p)"
  by (auto simp: hashOk_def testEnv_def testHash_def testBytesToHash_def)

lemma scenario_findTrie:
  assumes "FindDeepestAccountTrie emptyCache P = (None, False, False, True)"
    and "Cursor env TrieOfAccountsBucket (sliceOf None) (length (sliceOf None) * 8) = (es, None)"
    and "FindDeepestAccountTrie (insertNodes env emptyCache es) P = (Some K, True, False, False)"
  shows "findTrie env emptyCache P =
     (Inr (Some K, True, False), insertNodes env emptyCache es, [DbWalk TrieOfAccountsBucket [] 0])"
  using findTrie_miss [OF assms(1,2)] assms(3) by (simp add: sliceOf_def)

section \<open>Specified properties of the cached reader\<close>

text \<open>
  C1. An account that a warming scan put into the cache is answered from the cache. Let a
  call \<^verbatim>\<open>ReadAccountData(A)\<close> miss the cache, match a prefix with state that is not
  loaded, run the warming scan over the entries \<open>es\<close> and return without error. Let \<open>B\<close>
  be an address, unknown to the cache before the call, whose hashed address is the key of
  an entry of \<open>es\<close>. Then, after any further sequence of calls of the reader's methods,
  \<^verbatim>\<open>ReadAccountData(B)\<close> returns an account as Present, the one decoded from an entry of the
  scan stored under the hash of \<open>B\<close>, leaves the cache as it is and makes no access to the
  backing store.
\<close>

theorem ReadAccountData_scanned_account_present:
  assumes "hashOk env"
    and "GetAccount (Hash env) c address = None"
    and "findTrie env c (DecompressNibbles (Hash env address)) = (Inr (Some K, True, False), c1, log1)"
    and "CompressNibbles (padded K) = Some buf"
    and "Cursor env HashedAccountsBucket buf (length K * 4) = (es, cerr)"
    and "ReadAccountData env c address = (Inr r1, c', lg)"
    and "(Hash env B, v) \<in> set es"
    and "GetAccount (Hash env) c B = None"
  shows "\<exists>acc.
       (\<forall>others. ReadAccountData env (runCalls env c' others) B
           = (Inr (Some acc), runCalls env c' others, []))
     \<and> (\<exists>k' v'. (k', v') \<in> set es \<and> BytesToHash env k' = Hash env B \<and>
           DecodeForStorage env v' = Inr acc)"
proof -
  let ?h = "Hash env address"
  from assms(1) have hb: "BytesToHash env (Hash env B) = Hash env B"
    by (simp add: hashOk_def)
  from findTrie_Some_stored [OF assms(3)] obtain d where d: "accountTrie c1 K = Some d" by blast
  from findTrie_props [OF assms(3)] assms(8) have b1: "accounts c1 (Hash env B) = None"
    by (simp add: GetAccount_def GetAccountByHashedAddress_def)
  obtain w cw f a where wk:
    "walkEntries (accountVisit env ?h) es cerr (c1, False, None) = (w, (cw, f, a))"
    by (metis prod.exhaust)
  let ?c2 = "if \<not> f then SetAccountAbsent (Hash env) cw address else cw"
  have rad: "ReadAccountData env c address =
      (case w of
         Some err \<Rightarrow> (Inl err, cw, log1 @ [DbWalk HashedAccountsBucket buf (length K * 4)])
       | None \<Rightarrow> (Inr a, ?c2\<lparr>accountTrie := (accountTrie c1)(K \<mapsto> d\<lparr>loaded := True\<rparr>)\<rparr>,
            log1 @ [DbWalk HashedAccountsBucket buf (length K * 4)]))"
    using RAD_miss [OF assms(2,3)] warm_unfold [OF assms(4,5) wk d, of address]
    by (simp split: option.splits)
  with assms(6) have w: "w = None"
    and c': "c' = ?c2\<lparr>accountTrie := (accountTrie c1)(K \<mapsto> d\<lparr>loaded := True\<rparr>)\<rparr>"
    by (auto split: option.splits)
  from walk_acc_visited [OF wk [unfolded w] assms(7)] hb
  obtain y where y: "accounts cw (Hash env B) = Some y" and fnd: "Hash env B = ?h \<longrightarrow> f"
    by auto
  from walk_acc_new [OF wk b1 y] obtain k' v' acc where prov:
    "(k', v') \<in> set es" "Hash env B = BytesToHash env k'" "DecodeForStorage env v' = Inr acc"
    "y = Some acc"
    by blast
  from c' y fnd have present: "accounts c' (Hash env B) = Some (Some acc)"
    unfolding prov(4) by (auto simp: SetAccountAbsent_props)
  have "ReadAccountData env (runCalls env c' others) B
      = (Inr (Some acc), runCalls env c' others, [])" for others
    using runCalls_mono [OF present, of env others]
    by (simp add: RAD_hit GetAccount_def GetAccountByHashedAddress_def)
  with prov show ?thesis by auto
qed

theorem ReadAccountData_scanned_account_present_witness:
  "hashOk env3
   \<and> fst (ReadAccountData env3 emptyCache addrA) = Inr (Some (testAccount 5))
   \<and> GetAccount (Hash env3) emptyCache addrC = None
   \<and> (\<exists>acc. \<forall>others.
          ReadAccountData env3
            (runCalls env3 (fst (snd (ReadAccountData env3 emptyCache addrA))) others) addrC
          = (Inr (Some acc),
             runCalls env3 (fst (snd (ReadAccountData env3 emptyCache addrA))) others, []))"
proof -
  let ?es = "[(testHash addrA, [5 :: byte]), (testHash addrC, [6 :: byte])]"
  let ?c1 = "insertNodes env3 emptyCache [([0xf, 0x0], [1])]"
  have h0: "hashOk env3" unfolding env3_def by (rule hashOk_testEnv)
  have h1: "GetAccount (Hash env3) emptyCache addrA = None" by code_simp
  have a: "FindDeepestAccountTrie emptyCache (DecompressNibbles (Hash env3 addrA))
      = (None, False, False, True)" by code_simp
  have b: "Cursor env3 TrieOfAccountsBucket (sliceOf None) (length (sliceOf None) * 8)
      = ([([0xf, 0x0], [1])], None)" by code_simp
  have c: "FindDeepestAccountTrie ?c1 (DecompressNibbles (Hash env3 addrA))
      = (Some [0xf, 0x0], True, False, False)" by code_simp
  note h2 = scenario_findTrie [OF a b c]
  have h3: "CompressNibbles (padded [0xf, 0x0]) = Some [0xf0]" by code_simp
  have h4: "Cursor env3 HashedAccountsBucket [0xf0] (length [0xf, 0x0 :: byte] * 4) = (?es, None)"
    by code_simp
  obtain r c' lg where h5: "ReadAccountData env3 emptyCache addrA = (r, c', lg)"
    by (metis prod.exhaust)
  have ok: "fst (ReadAccountData env3 emptyCache addrA) = Inr (Some (testAccount 5))" by code_simp
  with h5 have h5': "ReadAccountData env3 emptyCache addrA = (Inr (Some (testAccount 5)), c', lg)"
    by simp
  have h6: "(Hash env3 addrC, [6]) \<in> set ?es" by code_simp
  have h7: "GetAccount (Hash env3) emptyCache addrC = None" by code_simp
  from ReadAccountData_scanned_account_present [OF h0 h1 h2 h3 h4 h5' h6 h7] h0 ok h7 h5
  show ?thesis by auto
qed

text \<open>
  C2, as amended. When the cache lookup misses and the deepest-prefix search reports
  \<open>trieMiss\<close>, the call makes exactly one range scan of the trie bucket, and it is its
  first access to the store. The scan starts at the key \<^verbatim>\<open>ihK\<close> that the failed search
  returned, with \<^verbatim>\<open>len(ihK)*8\<close> fixed bits; a failed search returns no prefix, so this is
  the nil key with zero fixed bits, not an encoding of the nibble path. Every node the scan
  visits is inserted into the trie prefix index and nothing else is; an error of the scan
  is returned; and the rest of the call, which follows the one repeated search, makes at
  most one more access, which is not a scan of the trie bucket.
\<close>

theorem ReadAccountData_trie_miss_one_scan:
  assumes "GetAccount (Hash env) c address = None"
    and "FindDeepestAccountTrie c (DecompressNibbles (Hash env address)) = (ihK, hs, ld, True)"
    and "Cursor env TrieOfAccountsBucket (sliceOf ihK) (length (sliceOf ihK) * 8) = (es, cerr)"
    and "ReadAccountData env c address = (r, c', lg)"
  shows "ihK = None
     \<and> (\<exists>rest. lg = DbWalk TrieOfAccountsBucket (sliceOf ihK) (length (sliceOf ihK) * 8) # rest
            \<and> filter isTrieScan rest = [] \<and> length rest \<le> 1)
     \<and> dom (accountTrie c') = dom (accountTrie c) \<union> fst ` set es
     \<and> (\<forall>err. cerr = Some err \<longrightarrow> r = Inl err)"
proof -
  obtain tr where ft: "findTrie env c (DecompressNibbles (Hash env address)) =
      (tr, insertNodes env c es,
       [DbWalk TrieOfAccountsBucket (sliceOf ihK) (length (sliceOf ihK) * 8)])"
    and tr: "\<forall>err. cerr = Some err \<longrightarrow> tr = Inl err"
    using findTrie_miss [OF assms(2,3)] by simp
  from RAD_trie_dom [OF assms(4) ft assms(1)] insertNodes_dom [of env c es]
  have shape: "(\<exists>rest. lg = DbWalk TrieOfAccountsBucket (sliceOf ihK) (length (sliceOf ihK) * 8) # rest
            \<and> filter isTrieScan rest = [] \<and> length rest \<le> 1)"
    and dm: "dom (accountTrie c') = dom (accountTrie c) \<union> fst ` set es"
    by simp_all
  have "\<forall>err. cerr = Some err \<longrightarrow> r = Inl err"
    using RAD_miss [OF assms(1) ft] assms(4) tr by auto
  with FindDeepest_miss_None [OF assms(2)] shape dm show ?thesis by simp
qed

theorem ReadAccountData_trie_miss_one_scan_witness:
  "GetAccount (Hash env1) emptyCache addrA = None
   \<and> FindDeepestAccountTrie emptyCache (DecompressNibbles (Hash env1 addrA))
        = (None, False, False, True)
   \<and> Cursor env1 TrieOfAccountsBucket [] 0 = ([([0xf, 0x0], [1])], None)
   \<and> (\<exists>rest. snd (snd (ReadAccountData env1 emptyCache addrA))
          = DbWalk TrieOfAccountsBucket [] 0 # rest \<and> filter isTrieScan rest = [])
   \<and> dom (accountTrie (fst (snd (ReadAccountData env1 emptyCache addrA)))) = {[0xf, 0x0]}"
proof -
  have h1: "GetAccount (Hash env1) emptyCache addrA = None" by code_simp
  have h2: "FindDeepestAccountTrie emptyCache (DecompressNibbles (Hash env1 addrA))
        = (None, False, False, True)" by code_simp
  have h3: "Cursor env1 TrieOfAccountsBucket (sliceOf None) (length (sliceOf None) * 8)
      = ([([0xf, 0x0], [1])], None)"
    by code_simp
  obtain r c' lg where h4: "ReadAccountData env1 emptyCache addrA = (r, c', lg)"
    by (metis prod.exhaust)
  have e: "dom (accountTrie emptyCache) = {}" by (simp add: emptyCache_def)
  from ReadAccountData_trie_miss_one_scan [OF h1 h2 h3 h4] h1 h2 h3 h4 e
  show ?thesis by (auto simp: sliceOf_def)
qed

text \<open>
  C2, as stated, fails in the scenario of section 8: the index is empty, the search
  misses, and the one scan of the trie bucket starts at the nil key with zero fixed bits,
  while the nibble path of the hashed address and its compressed form are not empty.
\<close>

theorem ReadAccountData_trie_miss_scan_start_counterexample:
  "GetAccount (Hash env1) emptyCache addrA = None
   \<and> FindDeepestAccountTrie emptyCache (DecompressNibbles (Hash env1 addrA))
        = (None, False, False, True)
   \<and> snd (snd (ReadAccountData env1 emptyCache addrA))
        = [DbWalk TrieOfAccountsBucket [] 0, DbWalk HashedAccountsBucket [0xf0] 8]
   \<and> DecompressNibbles (Hash env1 addrA) \<noteq> []
   \<and> CompressNibbles (DecompressNibbles (Hash env1 addrA)) \<noteq> Some []"
  by code_simp



text \<open>
  C4. When the warming scan fails, with an error of the store or of the decoding of an
  entry, the call returns that error and the matched prefix is not marked loaded: the trie
  prefix index is the one the scan started with, and the next search for the same path
  matches the same prefix with \<open>loaded\<close> false. The account cache keeps every entry it had,
  and each entry it gained is a Present account decoded from an entry of the scanned range.
\<close>

theorem ReadAccountData_scan_error_not_loaded:
  assumes "GetAccount (Hash env) c address = None"
    and "findTrie env c (DecompressNibbles (Hash env address)) = (Inr (Some K, True, False), c1, log1)"
    and "CompressNibbles (padded K) = Some buf"
    and "Cursor env HashedAccountsBucket buf (length K * 4) = (es, cerr)"
    and "walkEntries (accountVisit env (Hash env address)) es cerr (c1, False, None)
           = (Some err, (cw, f, a))"
  shows "ReadAccountData env c address
           = (Inl err, cw, log1 @ [DbWalk HashedAccountsBucket buf (length K * 4)])
     \<and> (cerr = Some err \<or> (\<exists>(k, v) \<in> set es. DecodeForStorage env v = Inl err))
     \<and> accountTrie cw = accountTrie c1
     \<and> FindDeepestAccountTrie cw (DecompressNibbles (Hash env address)) = (Some K, True, False, False)
     \<and> (\<forall>x y. accounts c1 x = Some y \<longrightarrow> accounts cw x = Some y)
     \<and> (\<forall>x y. accounts c1 x = None \<and> accounts cw x = Some y \<longrightarrow>
           (\<exists>k v acc. (k, v) \<in> set es \<and> x = BytesToHash env k \<and>
              DecodeForStorage env v = Inr acc \<and> y = Some acc))"
proof -
  from findTrie_Some_stored [OF assms(2)] obtain d where d: "accountTrie c1 K = Some d"
    and fd: "FindDeepestAccountTrie c1 (DecompressNibbles (Hash env address)) = (Some K, True, False, False)"
    by blast
  from walk_acc_frame [OF assms(5)] have fr: "accountTrie cw = accountTrie c1" by simp
  from warm_unfold [OF assms(3,4,5) d, of address]
  have "warmAccounts env c1 address (Hash env address) K
      = (Inl err, cw, [DbWalk HashedAccountsBucket buf (length K * 4)])" by simp
  with RAD_miss [OF assms(1,2)]
  have res: "ReadAccountData env c address
           = (Inl err, cw, log1 @ [DbWalk HashedAccountsBucket buf (length K * 4)])" by simp
  from FindDeepest_cong [OF fr] fd
  have fd': "FindDeepestAccountTrie cw (DecompressNibbles (Hash env address)) = (Some K, True, False, False)"
    by simp
  have mono: "\<forall>x y. accounts c1 x = Some y \<longrightarrow> accounts cw x = Some y"
    using walk_acc_mono [OF assms(5)] by blast
  have new: "\<forall>x y. accounts c1 x = None \<and> accounts cw x = Some y \<longrightarrow>
           (\<exists>k v acc. (k, v) \<in> set es \<and> x = BytesToHash env k \<and>
              DecodeForStorage env v = Inr acc \<and> y = Some acc)"
    using walk_acc_new [OF assms(5)] by blast
  from res walk_acc_error [OF assms(5)] fr fd' mono new show ?thesis by blast
qed

theorem ReadAccountData_scan_error_not_loaded_witness:
  "fst (ReadAccountData env2 emptyCache addrA) = Inl DecodeError
   \<and> FindDeepestAccountTrie (fst (snd (ReadAccountData env2 emptyCache addrA)))
        (DecompressNibbles (Hash env2 addrA)) = (Some [0xf, 0x0], True, False, False)
   \<and> accounts (fst (snd (ReadAccountData env2 emptyCache addrA))) (Hash env2 addrA)
        = Some (Some (testAccount 5))"
proof -
  let ?es = "[(testHash addrA, [5 :: byte]), (testHash addrB, [])]"
  let ?c1 = "insertNodes env2 emptyCache [([0xf, 0x0], [1])]"
  have h1: "GetAccount (Hash env2) emptyCache addrA = None" by code_simp
  have a: "FindDeepestAccountTrie emptyCache (DecompressNibbles (Hash env2 addrA))
      = (None, False, False, True)" by code_simp
  have b: "Cursor env2 TrieOfAccountsBucket (sliceOf None) (length (sliceOf None) * 8)
      = ([([0xf, 0x0], [1])], None)" by code_simp
  have c: "FindDeepestAccountTrie ?c1 (DecompressNibbles (Hash env2 addrA))
      = (Some [0xf, 0x0], True, False, False)" by code_simp
  note h2 = scenario_findTrie [OF a b c]
  have h3: "CompressNibbles (padded [0xf, 0x0]) = Some [0xf0]" by code_simp
  have h4: "Cursor env2 HashedAccountsBucket [0xf0] (length [0xf, 0x0 :: byte] * 4) = (?es, None)"
    by code_simp
  obtain w cw f a where wk:
    "walkEntries (accountVisit env2 (Hash env2 addrA)) ?es None (?c1, False, None) = (w, (cw, f, a))"
    by (metis prod.exhaust)
  have "fst (walkEntries (accountVisit env2 (Hash env2 addrA)) ?es None (?c1, False, None))
      = Some DecodeError" by code_simp
  with wk have h5:
    "walkEntries (accountVisit env2 (Hash env2 addrA)) ?es None (?c1, False, None)
       = (Some DecodeError, (cw, f, a))" by simp
  have kept: "accounts (fst (snd (ReadAccountData env2 emptyCache addrA))) (Hash env2 addrA)
        = Some (Some (testAccount 5))" by code_simp
  from ReadAccountData_scan_error_not_loaded [OF h1 h2 h3 h4 h5] kept
  show ?thesis by simp
qed



text \<open>
  C6. Once \<^verbatim>\<open>ReadAccountData\<close> has returned Absent for an address, the Absent marker is in
  the account cache, and after any further sequence of calls of the reader's methods a call
  of \<^verbatim>\<open>ReadAccountData\<close> for the same address returns Absent, leaves the cache as it is and
  makes no access to the backing store.
\<close>

theorem ReadAccountData_absent_is_stable:
  assumes "hashOk env"
    and "ReadAccountData env c address = (Inr None, c1, lg)"
  shows "GetAccount (Hash env) c1 address = Some None
     \<and> (\<forall>others. ReadAccountData env (runCalls env c1 others) address
           = (Inr None, runCalls env c1 others, []))"
proof -
  let ?h = "Hash env address"
  from assms(1) have hh: "BytesToHash env ?h = ?h" by (simp add: hashOk_def)
  have marker: "accounts c1 ?h = Some None"
    using assms(2)
  proof (cases rule: RAD_cases)
    case (hit a)
    then show ?thesis by (simp add: GetAccount_def GetAccountByHashedAddress_def)
  next
    case (trieErr e c1)
    then show ?thesis by simp
  next
    case (direct hs ld c1' log1 l2)
    from readDirect_props [OF direct(3)] show ?thesis by simp
  next
    case (absent K hs ld c1')
    then show ?thesis by (simp add: SetAccountAbsent_props)
  next
    case (warm K c1' log1 l2)
    from findTrie_Some_stored [OF warm(2)] obtain d where d: "accountTrie c1' K = Some d" by blast
    from findTrie_props [OF warm(2)] warm(1) have unk: "accounts c1' ?h = None"
      by (simp add: GetAccount_def GetAccountByHashedAddress_def)
    from warm(3) d show ?thesis
    proof (cases rule: warm_cases)
      case (1 buf es cerr w cw f a)
      let ?c2 = "if \<not> f then SetAccountAbsent (Hash env) cw address else cw"
      from 1(6) have w: "w = None" by (cases w) auto
      with 1(5) have a: "a = None" and mk: "MarkAccountTrieAsLoaded ?c2 K = Some c1" by simp_all
      have "\<not> f"
      proof
        assume f
        with walk_acc_found [OF 1(3)] a hh have y: "accounts cw ?h = Some None" by simp
        from walk_acc_new [OF 1(3) unk y] show False by auto
      qed
      with Mark_frame [OF mk] show ?thesis by (simp add: SetAccountAbsent_props)
    qed
  qed
  have "ReadAccountData env (runCalls env c1 others) address
           = (Inr None, runCalls env c1 others, [])" for others
    using runCalls_mono [OF marker, of env others]
    by (simp add: RAD_hit GetAccount_def GetAccountByHashedAddress_def)
  with marker show ?thesis by (simp add: GetAccount_def GetAccountByHashedAddress_def)
qed

theorem ReadAccountData_absent_is_stable_witness:
  "hashOk env1
   \<and> fst (ReadAccountData env1 emptyCache addrB) = Inr None
   \<and> snd (snd (ReadAccountData env1 emptyCache addrB))
        = [DbWalk TrieOfAccountsBucket [] 0, DbWalk HashedAccountsBucket [0xf0] 8]
   \<and> ReadAccountData env1
        (runCalls env1 (fst (snd (ReadAccountData env1 emptyCache addrB)))
           [CallAccountData addrA, CallAccountStorage addrB 1 [3]]) addrB
      = (Inr None,
         runCalls env1 (fst (snd (ReadAccountData env1 emptyCache addrB)))
           [CallAccountData addrA, CallAccountStorage addrB 1 [3]], [])"
proof -
  have h0: "hashOk env1" unfolding env1_def by (rule hashOk_testEnv)
  obtain r c1 lg where h1: "ReadAccountData env1 emptyCache addrB = (r, c1, lg)"
    by (metis prod.exhaust)
  have ok: "fst (ReadAccountData env1 emptyCache addrB) = Inr None" by code_simp
  have lg: "snd (snd (ReadAccountData env1 emptyCache addrB))
        = [DbWalk TrieOfAccountsBucket [] 0, DbWalk HashedAccountsBucket [0xf0] 8]" by code_simp
  from h1 ok have h1': "ReadAccountData env1 emptyCache addrB = (Inr None, c1, lg)" by simp
  from ReadAccountData_absent_is_stable [OF h0 h1'] h0 ok lg h1 show ?thesis
    by (simp del: runCalls.simps)
qed

text \<open>
  C7. Storage cache entries are scoped to their incarnation. A value cached by
  \<^verbatim>\<open>SetStorageRead\<close> under incarnation \<open>i\<close> is invisible to a lookup under another
  incarnation \<open>j\<close>: the lookup answers as it did before the write, \<^verbatim>\<open>ReadAccountStorage\<close> for
  \<open>j\<close> returns what it returns without the write, and when nothing is cached under \<open>j\<close>
  it misses the cache, makes one point lookup in the backing store and returns the store's
  answer.
\<close>

theorem storage_incarnation_scoped:
  assumes "i \<noteq> j"
  shows "GetStorage (SetStorageRead c address i key v) address j key = GetStorage c address j key
     \<and> fst (ReadAccountStorage env (SetStorageRead c address i key v) address j key)
         = fst (ReadAccountStorage env c address j key)
     \<and> (GetStorage c address j key = None \<longrightarrow>
          fst (ReadAccountStorage env (SetStorageRead c address i key v) address j key)
            = rdAccountStorage env address j key
          \<and> snd (snd (ReadAccountStorage env (SetStorageRead c address i key v) address j key))
            = [RdAccountStorage address j key])"
proof -
  from assms have frame:
    "GetStorage (SetStorageRead c address i key v) address j key = GetStorage c address j key"
    by (simp add: GetStorage_def SetStorageRead_def)
  have same: "fst (ReadAccountStorage env (SetStorageRead c address i key v) address j key)
         = fst (ReadAccountStorage env c address j key)"
    by (simp add: ReadAccountStorage_def frame split: option.splits sum.splits)
  have "fst (ReadAccountStorage env (SetStorageRead c address i key v) address j key)
            = rdAccountStorage env address j key
          \<and> snd (snd (ReadAccountStorage env (SetStorageRead c address i key v) address j key))
            = [RdAccountStorage address j key]"
    if "GetStorage c address j key = None"
    using that frame
    by (cases "rdAccountStorage env address j key") (simp_all add: ReadAccountStorage_def)
  with frame same show ?thesis by blast
qed

theorem storage_incarnation_scoped_witness:
  "(1 :: 64 word) \<noteq> 2
   \<and> GetStorage emptyCache addrA 2 [3] = None
   \<and> GetStorage (SetStorageRead emptyCache addrA 1 [3] [9]) addrA 1 [3] = Some (Some [9])
   \<and> fst (ReadAccountStorage env1 (SetStorageRead emptyCache addrA 1 [3] [9]) addrA 2 [3]) = Inr [7]
   \<and> snd (snd (ReadAccountStorage env1 (SetStorageRead emptyCache addrA 1 [3] [9]) addrA 2 [3]))
        = [RdAccountStorage addrA 2 [3]]"
proof -
  have ne: "(1 :: 64 word) \<noteq> 2" by simp
  have unk: "GetStorage emptyCache addrA 2 [3] = None"
    by (simp add: GetStorage_def emptyCache_def)
  have hit: "GetStorage (SetStorageRead emptyCache addrA 1 [3] [9]) addrA 1 [3] = Some (Some [9])"
    by (simp add: GetStorage_def SetStorageRead_def)
  have st: "rdAccountStorage env1 addrA 2 [3] = Inr [7]"
    by (simp add: env1_def testEnv_def)
  from storage_incarnation_scoped [OF ne, of emptyCache addrA "[3]" "[9]" env1] unk
  have rd: "fst (ReadAccountStorage env1 (SetStorageRead emptyCache addrA 1 [3] [9]) addrA 2 [3])
      = rdAccountStorage env1 addrA 2 [3]"
    and lg: "snd (snd (ReadAccountStorage env1 (SetStorageRead emptyCache addrA 1 [3] [9]) addrA 2 [3]))
        = [RdAccountStorage addrA 2 [3]]"
    by blast+
  from ne unk hit rd [unfolded st] lg show ?thesis by blast
qed

text \<open>
  C8. When the search misses, the scan of the trie bucket ends without error and the
  repeated search still finds no prefix (\<^verbatim>\<open>ihK == nil\<close>), the call makes exactly one point
  lookup of the address through the underlying reader. An error of the lookup is returned
  and nothing is cached; otherwise the result is cached under the hashed address, as
  Present or as Absent, and returned. Nothing else changes: the trie prefix index is the
  one the scan left, and the other maps are untouched.
\<close>

theorem ReadAccountData_no_prefix_point_lookup:
  assumes "GetAccount (Hash env) c address = None"
    and "FindDeepestAccountTrie c (DecompressNibbles (Hash env address)) = (ihK, hs, ld, True)"
    and "Cursor env TrieOfAccountsBucket (sliceOf ihK) (length (sliceOf ihK) * 8) = (es, None)"
    and "fst (FindDeepestAccountTrie (insertNodes env c es) (DecompressNibbles (Hash env address))) = None"
  shows "ReadAccountData env c address =
     (case rdAccountData env address of
        Inl err \<Rightarrow>
          (Inl err, insertNodes env c es,
           [DbWalk TrieOfAccountsBucket (sliceOf ihK) (length (sliceOf ihK) * 8),
            RdAccountData address])
      | Inr a \<Rightarrow>
          (Inr a,
           (insertNodes env c es)\<lparr>accounts := (accounts c)(Hash env address \<mapsto> a)\<rparr>,
           [DbWalk TrieOfAccountsBucket (sliceOf ihK) (length (sliceOf ihK) * 8),
            RdAccountData address]))"
proof -
  let ?c1 = "insertNodes env c es"
  obtain hs' ld' m' where fd2:
    "FindDeepestAccountTrie ?c1 (DecompressNibbles (Hash env address)) = (None, hs', ld', m')"
    using assms(4) by (metis fst_conv prod.exhaust)
  from findTrie_miss [OF assms(2,3)] fd2
  have ft: "findTrie env c (DecompressNibbles (Hash env address)) =
      (Inr (None, hs', ld'), ?c1,
       [DbWalk TrieOfAccountsBucket (sliceOf ihK) (length (sliceOf ihK) * 8)])"
    by simp
  have acc: "accounts ?c1 = accounts c" using insertNodes_frame [of env c es] by simp
  show ?thesis
    using RAD_miss [OF assms(1) ft] acc
    by (auto simp: readDirect_def SetAccountAbsent_def SetAccountRead_def
        DeprecatedSetAccountRead_def split: sum.splits option.splits)
qed

theorem ReadAccountData_no_prefix_point_lookup_witness:
  "GetAccount (Hash env4) emptyCache addrA = None
   \<and> FindDeepestAccountTrie emptyCache (DecompressNibbles (Hash env4 addrA))
        = (None, False, False, True)
   \<and> ReadAccountData env4 emptyCache addrA
        = (Inr (Some (testAccount 5)),
           (insertNodes env4 emptyCache [])
             \<lparr>accounts := (accounts emptyCache)(Hash env4 addrA \<mapsto> Some (testAccount 5))\<rparr>,
           [DbWalk TrieOfAccountsBucket [] 0, RdAccountData addrA])"
proof -
  have h1: "GetAccount (Hash env4) emptyCache addrA = None" by code_simp
  have h2: "FindDeepestAccountTrie emptyCache (DecompressNibbles (Hash env4 addrA))
        = (None, False, False, True)" by code_simp
  have h3: "Cursor env4 TrieOfAccountsBucket (sliceOf None) (length (sliceOf None) * 8) = ([], None)"
    by code_simp
  have h4: "fst (FindDeepestAccountTrie (insertNodes env4 emptyCache [])
      (DecompressNibbles (Hash env4 addrA))) = None" by code_simp
  have h5: "rdAccountData env4 addrA = Inr (Some (testAccount 5))" by code_simp
  from ReadAccountData_no_prefix_point_lookup [OF h1 h2 h3 h4] h1 h2 h5
  show ?thesis by (simp add: sliceOf_def)
qed

text \<open>
  C9. \<^verbatim>\<open>ReadAccountCode\<close> caches a fetched code blob if and only if it has at most 1024
  bytes. After a fetch of a blob of at most 1024 bytes the same call is a cache hit with no
  access to the backing store; after a fetch of a blob of 1025 bytes or more the cache is
  unchanged and the same call reads the backing store again.
\<close>

theorem ReadAccountCode_cutoff:
  assumes "codeHash \<noteq> emptyCodeHash env"
    and "GetCode c address incarnation = None"
    and "rdAccountCode env address incarnation codeHash = Inr cd"
    and "ReadAccountCode env c address incarnation codeHash = (r1, c1, log1)"
  shows "r1 = Inr cd \<and> log1 = [RdAccountCode address incarnation codeHash]
     \<and> (GetCode c1 address incarnation = Some cd \<longleftrightarrow> length cd \<le> 1024)
     \<and> (length cd \<le> 1024 \<longrightarrow>
          ReadAccountCode env c1 address incarnation codeHash = (Inr cd, c1, []))
     \<and> (1025 \<le> length cd \<longrightarrow> c1 = c \<and>
          ReadAccountCode env c1 address incarnation codeHash
            = (Inr cd, c1, [RdAccountCode address incarnation codeHash]))"
proof (cases "length cd \<le> 1024")
  case True
  from assms True have first: "r1 = Inr cd" "log1 = [RdAccountCode address incarnation codeHash]"
    "c1 = SetCodeRead c address incarnation cd"
    by (simp_all add: ReadAccountCode_def)
  from True have hit: "GetCode c1 address incarnation = Some cd"
    by (simp add: first GetCode_def SetCodeRead_def)
  with assms(1) have "ReadAccountCode env c1 address incarnation codeHash = (Inr cd, c1, [])"
    by (simp add: ReadAccountCode_def)
  with first hit True show ?thesis by simp
next
  case False
  from assms False have first: "r1 = Inr cd" "log1 = [RdAccountCode address incarnation codeHash]"
    "c1 = c"
    by (simp_all add: ReadAccountCode_def)
  from assms False have "ReadAccountCode env c1 address incarnation codeHash
            = (Inr cd, c1, [RdAccountCode address incarnation codeHash])"
    by (simp add: first ReadAccountCode_def)
  with first False assms(2) show ?thesis by simp
qed

theorem ReadAccountCode_cutoff_witness:
  "[0x01] \<noteq> emptyCodeHash env1
   \<and> GetCode emptyCache addrA 0 = None \<and> GetCode emptyCache addrA 1 = None
   \<and> rdAccountCode env1 addrA 0 [0x01] = Inr (replicate 1024 0)
   \<and> rdAccountCode env1 addrA 1 [0x01] = Inr (replicate 1025 0)
   \<and> snd (snd (ReadAccountCode env1
        (fst (snd (ReadAccountCode env1 emptyCache addrA 0 [0x01]))) addrA 0 [0x01])) = []
   \<and> snd (snd (ReadAccountCode env1
        (fst (snd (ReadAccountCode env1 emptyCache addrA 1 [0x01]))) addrA 1 [0x01]))
        = [RdAccountCode addrA 1 [0x01]]"
proof -
  have h1: "[0x01] \<noteq> emptyCodeHash env1" by (simp add: env1_def testEnv_def)
  have h2: "GetCode emptyCache addrA 0 = None" "GetCode emptyCache addrA 1 = None"
    by (simp_all add: GetCode_def emptyCache_def)
  have h3: "rdAccountCode env1 addrA 0 [0x01] = Inr (replicate 1024 0)"
    "rdAccountCode env1 addrA 1 [0x01] = Inr (replicate 1025 0)"
    by (simp_all add: env1_def testEnv_def)
  obtain r1 c1 l1 where a: "ReadAccountCode env1 emptyCache addrA 0 [0x01] = (r1, c1, l1)"
    by (metis prod.exhaust)
  obtain r2 c2 l2 where b: "ReadAccountCode env1 emptyCache addrA 1 [0x01] = (r2, c2, l2)"
    by (metis prod.exhaust)
  from ReadAccountCode_cutoff [OF h1 h2(1) h3(1) a] ReadAccountCode_cutoff [OF h1 h2(2) h3(2) b]
    h1 h2 h3 a b
  show ?thesis by simp
qed

text \<open>
  C10. The callback of the warming scan returns \<open>continue = True\<close> whenever it returns no
  error, whatever its closure holds, also after the target has been found. So a call that
  runs the warming scan and returns without error has walked the whole range: the cursor
  ended without error, the closure's state is the fold of the callback over every entry,
  every entry's hash is in the account cache, and the prefix is marked loaded. A call that
  returns an error leaves the trie prefix index as the scan found it, the prefix not
  loaded.
\<close>

theorem ReadAccountData_scan_never_cut_short:
  assumes "GetAccount (Hash env) c address = None"
    and "findTrie env c (DecompressNibbles (Hash env address)) = (Inr (Some K, True, False), c1, log1)"
    and "CompressNibbles (padded K) = Some buf"
    and "Cursor env HashedAccountsBucket buf (length K * 4) = (es, cerr)"
    and "ReadAccountData env c address = (r, c', lg)"
  shows "(\<forall>s k v goOn s'. accountVisit env (Hash env address) s k v = ((goOn, None), s') \<longrightarrow> goOn)
     \<and> (\<forall>a. r = Inr a \<longrightarrow>
           cerr = None
           \<and> (\<exists>cw f. foldl (\<lambda>s (k, v). snd (accountVisit env (Hash env address) s k v))
                        (c1, False, None) es = (cw, f, a))
           \<and> (\<forall>(k, v) \<in> set es. accounts c' (BytesToHash env k) \<noteq> None)
           \<and> (\<exists>d. accountTrie c' K = Some d \<and> loaded d))
     \<and> (\<forall>err. r = Inl err \<longrightarrow> accountTrie c' = accountTrie c1
           \<and> (\<exists>d. accountTrie c' K = Some d \<and> \<not> loaded d))"
proof -
  let ?h = "Hash env address"
  have cont: "\<forall>s k v goOn s'. accountVisit env ?h s k v = ((goOn, None), s') \<longrightarrow> goOn"
    using accountVisit_continue by blast
  from findTrie_Some_stored [OF assms(2)] obtain d where d: "accountTrie c1 K = Some d"
    and ld: "\<not> loaded d"
    by auto
  obtain w cw f a where wk:
    "walkEntries (accountVisit env ?h) es cerr (c1, False, None) = (w, (cw, f, a))"
    by (metis prod.exhaust)
  from walk_acc_frame [OF wk] have fr: "accountTrie cw = accountTrie c1" by simp
  let ?c2 = "if \<not> f then SetAccountAbsent (Hash env) cw address else cw"
  have rad: "ReadAccountData env c address =
      (case w of
         Some err \<Rightarrow> (Inl err, cw, log1 @ [DbWalk HashedAccountsBucket buf (length K * 4)])
       | None \<Rightarrow> (Inr a, ?c2\<lparr>accountTrie := (accountTrie c1)(K \<mapsto> d\<lparr>loaded := True\<rparr>)\<rparr>,
            log1 @ [DbWalk HashedAccountsBucket buf (length K * 4)]))"
    using RAD_miss [OF assms(1,2)] warm_unfold [OF assms(3,4) wk d, of address]
    by (simp split: option.splits)
  show ?thesis
  proof (cases w)
    case None
    with rad assms(5) have r: "r = Inr a"
      and c': "c' = ?c2\<lparr>accountTrie := (accountTrie c1)(K \<mapsto> d\<lparr>loaded := True\<rparr>)\<rparr>"
      by simp_all
    from walk_acc_success [OF wk [unfolded None]]
    have ce: "cerr = None"
      and fold: "foldl (\<lambda>s (k, v). snd (accountVisit env ?h s k v)) (c1, False, None) es = (cw, f, a)"
      by simp_all
    have "accounts c' (BytesToHash env k) \<noteq> None" if kv: "(k, v) \<in> set es" for k v
    proof -
      from walk_acc_visited [OF wk [unfolded None] kv]
      have "accounts cw (BytesToHash env k) \<noteq> None" by simp
      with c' show ?thesis by (auto simp: SetAccountAbsent_props split: if_splits)
    qed
    then have vis: "\<forall>(k, v) \<in> set es. accounts c' (BytesToHash env k) \<noteq> None" by blast
    from c' have "\<exists>d. accountTrie c' K = Some d \<and> loaded d" by simp
    with cont r ce fold vis show ?thesis by auto
  next
    case (Some err)
    with rad assms(5) have "r = Inl err" "c' = cw" by simp_all
    with cont fr d ld show ?thesis by auto
  qed
qed

theorem ReadAccountData_scan_never_cut_short_witness:
  "fst (ReadAccountData env3 emptyCache addrA) = Inr (Some (testAccount 5))
   \<and> accounts (fst (snd (ReadAccountData env3 emptyCache addrA))) (BytesToHash env3 (testHash addrC))
        \<noteq> None
   \<and> (\<exists>d. accountTrie (fst (snd (ReadAccountData env3 emptyCache addrA))) [0xf, 0x0] = Some d
          \<and> loaded d)"
proof -
  let ?es = "[(testHash addrA, [5 :: byte]), (testHash addrC, [6 :: byte])]"
  let ?c1 = "insertNodes env3 emptyCache [([0xf, 0x0], [1])]"
  have h1: "GetAccount (Hash env3) emptyCache addrA = None" by code_simp
  have a: "FindDeepestAccountTrie emptyCache (DecompressNibbles (Hash env3 addrA))
      = (None, False, False, True)" by code_simp
  have b: "Cursor env3 TrieOfAccountsBucket (sliceOf None) (length (sliceOf None) * 8)
      = ([([0xf, 0x0], [1])], None)" by code_simp
  have c: "FindDeepestAccountTrie ?c1 (DecompressNibbles (Hash env3 addrA))
      = (Some [0xf, 0x0], True, False, False)" by code_simp
  note h2 = scenario_findTrie [OF a b c]
  have h3: "CompressNibbles (padded [0xf, 0x0]) = Some [0xf0]" by code_simp
  have h4: "Cursor env3 HashedAccountsBucket [0xf0] (length [0xf, 0x0 :: byte] * 4) = (?es, None)"
    by code_simp
  obtain r c' lg where h5: "ReadAccountData env3 emptyCache addrA = (r, c', lg)"
    by (metis prod.exhaust)
  have "fst (ReadAccountData env3 emptyCache addrA) = Inr (Some (testAccount 5))" by code_simp
  with h5 have r: "r = Inr (Some (testAccount 5))" by simp
  from ReadAccountData_scan_never_cut_short [OF h1 h2 h3 h4 h5] r h5
  show ?thesis by auto
qed

end
